theory Spec2Isabelle
  imports Complex_Main "HOL-Library.AList"
begin

section \<open>Data model of the transformer landscape\<close>

text \<open>
  The embedding follows \<^verbatim>\<open>drtransformer/landscape.py\<close>. Python dictionaries keep
  insertion order, so the three dictionaries of a landscape are association lists with
  unique keys; Python sets of structure keys are duplicate-free lists (the iteration
  order of a Python set is unspecified, the model fixes insertion order). Occupancies,
  rates and temperatures are Python floats; they are modelled by exact reals. Every
  \<^verbatim>\<open>assert\<close>, missing key and ill-typed operand of the source is a value of
  type \<open>error\<close>.
\<close>

datatype error =
  AssertionError | KeyError | TypeError | IndexError | ZeroDivisionError | AttributeError | NameError

record node =
  "structure" :: "string option"
  occupancy :: real
  identity :: string
  energy :: "int option"
  active :: bool
  pruned :: int
  lminreps :: "string list option"
  hiddennodes :: "string list option"
  occtransfer :: "string list option"

text \<open>
  An edge dictionary always has the key \<^verbatim>\<open>weight\<close>; the key
  \<^verbatim>\<open>saddle_energy\<close> exists only when it was passed to \<^verbatim>\<open>addedge\<close>:
  \<open>None\<close> is the missing key, \<open>Some None\<close> the stored value \<^verbatim>\<open>None\<close>.
\<close>

record edge =
  weight :: "real option"
  saddle_energy :: "int option option"

record cg_edge =
  cg_saddle_energy :: int
  cg_weight :: real

record landscape =
  sequence :: string
  temperature :: real
  prefix :: string
  nodeID :: nat
  nodes :: "(string \<times> node) list"
  edges :: "((string \<times> string) \<times> edge) list"
  cg_edges :: "((string \<times> string) \<times> cg_edge) list"
  k0 :: real
  minh :: int
  fpwm :: int
  mfree :: int
  transcript_length :: nat

text \<open>\<^verbatim>\<open>__init__\<close>: the field \<open>temperature\<close> stands for \<^verbatim>\<open>vrna_md.temperature\<close>.\<close>

definition init_landscape :: "string \<Rightarrow> real \<Rightarrow> string \<Rightarrow> landscape" where
  "init_landscape sq temp pre =
     \<lparr>sequence = sq, temperature = temp, prefix = pre, nodeID = 0,
      nodes = [], edges = [], cg_edges = [],
      k0 = 200000, minh = 0, fpwm = 0, mfree = 6, transcript_length = 0\<rparr>"

definition RT :: "landscape \<Rightarrow> real" where
  "RT l =
     (let rt = 61632077549999997 / 10 ^ 17 in
      if temperature l \<noteq> 37
      then (let kelvin = 27315 / 100 + temperature l in (rt / (31015 / 100)) * kelvin)
      else rt)"

definition transcript :: "landscape \<Rightarrow> string" where
  "transcript l = take (transcript_length l) (sequence l)"

definition has_node :: "landscape \<Rightarrow> string \<Rightarrow> bool" where
  "has_node l n = (map_of (nodes l) n \<noteq> None)"

definition has_edge :: "landscape \<Rightarrow> string \<Rightarrow> string \<Rightarrow> bool" where
  "has_edge l s1 s2 = (map_of (edges l) (s1, s2) \<noteq> None)"

definition has_cg_edge :: "landscape \<Rightarrow> string \<Rightarrow> string \<Rightarrow> bool" where
  "has_cg_edge l s1 s2 = (map_of (cg_edges l) (s1, s2) \<noteq> None)"

text \<open>
  \<^verbatim>\<open>get_rate\<close> returns the stored weight (which may be \<^verbatim>\<open>None\<close>) or the
  number 0; \<^verbatim>\<open>get_saddle\<close> reads the key \<^verbatim>\<open>saddle_energy\<close> of an existing
  edge (a \<^verbatim>\<open>KeyError\<close> when the edge has none) or returns \<^verbatim>\<open>None\<close>.
\<close>

definition get_rate :: "landscape \<Rightarrow> string \<Rightarrow> string \<Rightarrow> real option" where
  "get_rate l s1 s2 =
     (if has_edge l s1 s2
      then (case map_of (edges l) (s1, s2) of Some e \<Rightarrow> weight e | None \<Rightarrow> None)
      else Some 0)"

definition get_saddle :: "landscape \<Rightarrow> string \<Rightarrow> string \<Rightarrow> error + int option" where
  "get_saddle l s1 s2 =
     (if has_edge l s1 s2
      then (case map_of (edges l) (s1, s2) of
              Some e \<Rightarrow> (case saddle_energy e of None \<Rightarrow> Inl KeyError | Some se \<Rightarrow> Inr se)
            | None \<Rightarrow> Inl KeyError)
      else Inr None)"

definition get_cg_saddle :: "landscape \<Rightarrow> string \<Rightarrow> string \<Rightarrow> int option" where
  "get_cg_saddle l s1 s2 =
     (if has_cg_edge l s1 s2
      then map_option cg_saddle_energy (map_of (cg_edges l) (s1, s2))
      else None)"

section \<open>Collaborators and control-flow helpers\<close>

text \<open>
  The energy model, the fraying, guide-graph, flooding and coarse-graining routines and
  the matrix integrator are imported by \<^verbatim>\<open>landscape.py\<close> from other modules; they
  are parameters of the model. A dictionary returned by a collaborator is an association
  list, a set a list. \<open>timing\<close> stands for the four wall-clock durations that
  \<^verbatim>\<open>expand\<close> measures with \<^verbatim>\<open>datetime.now()\<close>.
\<close>

record collaborators =
  backtrack :: "nat \<Rightarrow> string"
  eval_structure :: "string \<Rightarrow> real"
  find_fraying_neighbors :: "string \<Rightarrow> string list \<Rightarrow> int \<Rightarrow> (string \<times> string list) list"
  get_guide_graph :: "string \<Rightarrow> string list \<Rightarrow> (string \<times> int) list \<times> (string \<times> string) list"
  neighborhood_flooding ::
    "string \<times> int \<Rightarrow> (string \<times> node) list \<Rightarrow> (string \<times> string) list \<Rightarrow>
     ((string \<times> string) \<times> edge) list \<Rightarrow> int \<Rightarrow>
     (string \<times> int) list \<times> ((string \<times> string) \<times> int option) list"
  top_down_coarse_graining ::
    "(string \<times> node) list \<Rightarrow> ((string \<times> string) \<times> edge) list \<Rightarrow> int \<Rightarrow>
     (string \<times> node) list \<times> ((string \<times> string) \<times> edge) list \<times> (string \<times> string list) list"
  mx_simulate ::
    "real list list \<Rightarrow> real list \<Rightarrow> real list \<Rightarrow> real list option \<Rightarrow> real \<Rightarrow> real \<Rightarrow>
     (real \<times> real list) list \<times> error option"
  timing :: "real \<times> real \<times> real \<times> real"

definition ebind :: "error + 'a \<Rightarrow> ('a \<Rightarrow> error + 'b) \<Rightarrow> error + 'b" where
  "ebind r f = (case r of Inl e \<Rightarrow> Inl e | Inr v \<Rightarrow> f v)"

text \<open>A \<^verbatim>\<open>for\<close> loop whose body may raise: the first error ends the loop.\<close>

fun fold_err :: "('a \<Rightarrow> 's \<Rightarrow> error + 's) \<Rightarrow> 'a list \<Rightarrow> 's \<Rightarrow> error + 's" where
  "fold_err f [] s = Inr s"
| "fold_err f (x # xs) s = (case f x s of Inl e \<Rightarrow> Inl e | Inr s' \<Rightarrow> fold_err f xs s')"

text \<open>A comprehension with a condition that may raise.\<close>

fun filter_err :: "('a \<Rightarrow> error + bool) \<Rightarrow> 'a list \<Rightarrow> error + 'a list" where
  "filter_err p [] = Inr []"
| "filter_err p (x # xs) =
     (case p x of
        Inl e \<Rightarrow> Inl e
      | Inr b \<Rightarrow> (case filter_err p xs of
                    Inl e \<Rightarrow> Inl e
                  | Inr ys \<Rightarrow> Inr (if b then x # ys else ys)))"

text \<open>The keys of a dictionary built from a list of pairs, in order of first insertion.\<close>

definition dict_keys :: "('k \<times> 'v) list \<Rightarrow> 'k list" where
  "dict_keys kvs = map fst (fold (\<lambda>(k, v). AList.update k v) kvs [])"

text \<open>\<^verbatim>\<open>s.add(x)\<close> on a set held as a duplicate-free list.\<close>

definition set_add :: "'a \<Rightarrow> 'a list \<Rightarrow> 'a list" where
  "set_add x xs = (if x \<in> set xs then xs else xs @ [x])"

text \<open>Truth value of a set-valued attribute: \<^verbatim>\<open>None\<close> and the empty set are false.\<close>

definition set_truthy :: "string list option \<Rightarrow> bool" where
  "set_truthy s = (case s of None \<Rightarrow> False | Some xs \<Rightarrow> xs \<noteq> [])"

text \<open>Python 3 \<^verbatim>\<open>round\<close> with one argument: to the nearest integer, ties to even.\<close>

definition py_round :: "real \<Rightarrow> int" where
  "py_round x =
     (let f = \<lfloor>x\<rfloor>; d = x - of_int f in
      if d < 1 / 2 then f else if 1 / 2 < d then f + 1 else if even f then f else f + 1)"

definition digit_char :: "nat \<Rightarrow> char" where
  "digit_char d = ''0123456789'' ! d"

fun str_nat :: "nat \<Rightarrow> string" where
  "str_nat n = (if n < 10 then [digit_char n] else str_nat (n div 10) @ [digit_char (n mod 10)])"

declare str_nat.simps [simp del]

section \<open>Graph store\<close>

definition update_node :: "string \<Rightarrow> (node \<Rightarrow> node) \<Rightarrow> landscape \<Rightarrow> landscape" where
  "update_node key f l = l\<lparr>nodes := AList.map_entry key f (nodes l)\<rparr>"

text \<open>
  \<^verbatim>\<open>addnode\<close>. The energy is typed as an integer, so the \<^verbatim>\<open>isinstance\<close>
  assertion cannot fail; an omitted identity is the prefix followed by the counter.
\<close>

definition addnode ::
  "collaborators \<Rightarrow> landscape \<Rightarrow> string \<Rightarrow> string option \<Rightarrow> real \<Rightarrow> string option \<Rightarrow> int option \<Rightarrow>
   bool \<Rightarrow> int \<Rightarrow> string list option \<Rightarrow> string list option \<Rightarrow> string list option \<Rightarrow> error + landscape" where
  "addnode cb l key st occ ident en act pr lm hn ot =
     (if map_of (nodes l) key \<noteq> None then Inl AssertionError
      else
        let en' = (case en of
                     Some e \<Rightarrow> Some e
                   | None \<Rightarrow> (case st of
                               Some s \<Rightarrow> Some (py_round (eval_structure cb s * 100))
                             | None \<Rightarrow> None));
            ident' = (case ident of None \<Rightarrow> prefix l @ str_nat (nodeID l) | Some i \<Rightarrow> i);
            nid' = (case ident of None \<Rightarrow> nodeID l + 1 | Some i \<Rightarrow> nodeID l)
        in Inr (l\<lparr>nodeID := nid',
                  nodes := nodes l @
                    [(key, \<lparr>structure = st, occupancy = occ, identity = ident', energy = en',
                            active = act, pruned = pr, lminreps = lm, hiddennodes = hn,
                            occtransfer = ot\<rparr>)]\<rparr>))"

text \<open>
  \<^verbatim>\<open>addedge\<close>. The only keyword argument the class passes is
  \<^verbatim>\<open>saddle_energy\<close>; \<open>None\<close> for \<open>se_kw\<close> is a call without it.
\<close>

definition addedge ::
  "landscape \<Rightarrow> string \<Rightarrow> string \<Rightarrow> real option \<Rightarrow> int option option \<Rightarrow> error + landscape" where
  "addedge l n1 n2 w se_kw =
     (if map_of (nodes l) n1 = None then Inl AssertionError
      else if map_of (nodes l) n2 = None then Inl AssertionError
      else
        let es = (if map_of (edges l) (n1, n2) = None
                  then edges l @ [((n1, n2), \<lparr>weight = w, saddle_energy = None\<rparr>)]
                  else edges l)
        in Inr (l\<lparr>edges := AList.map_entry (n1, n2)
                   (\<lambda>e. case se_kw of None \<Rightarrow> e | Some v \<Rightarrow> e\<lparr>saddle_energy := Some v\<rparr>) es\<rparr>))"

definition local_mins :: "landscape \<Rightarrow> string list" where
  "local_mins l = map fst (filter (\<lambda>(n, d). \<not> set_truthy (lminreps d)) (nodes l))"

definition active_local_mins :: "landscape \<Rightarrow> string list" where
  "active_local_mins l =
     map fst (filter (\<lambda>(n, d). active d \<and> \<not> set_truthy (lminreps d)) (nodes l))"

definition hidden_nodes :: "landscape \<Rightarrow> string list" where
  "hidden_nodes l = map fst (filter (\<lambda>(n, d). set_truthy (lminreps d)) (nodes l))"

definition total_occupancy :: "landscape \<Rightarrow> real" where
  "total_occupancy l = sum_list (map (\<lambda>(n, d). occupancy d) (nodes l))"

section \<open>Expansion\<close>

text \<open>
  The block that \<^verbatim>\<open>expand\<close> repeats for the mfe structure, the fraying neighbours,
  the guide nodes and the flooded nodes: a new key is added (and recorded in
  \<^verbatim>\<open>nn\<close>), an inactive one is reactivated (and recorded in \<^verbatim>\<open>on\<close>).
\<close>

definition merge_node ::
  "collaborators \<Rightarrow> string \<Rightarrow> int option \<Rightarrow> landscape \<times> string list \<times> string list \<Rightarrow>
   error + (landscape \<times> string list \<times> string list)" where
  "merge_node cb key en s =
     (case s of (l, nn, on) \<Rightarrow>
        (case map_of (nodes l) key of
           None \<Rightarrow>
             (case addnode cb l key (Some key) 0 None en True 0 None None None of
                Inl e \<Rightarrow> Inl e
              | Inr l' \<Rightarrow> Inr (l', set_add key nn, on))
         | Some d \<Rightarrow>
             if \<not> active d
             then Inr (update_node key (\<lambda>d. d\<lparr>active := True\<rparr>) l, nn, set_add key on)
             else Inr (l, nn, on)))"

text \<open>Step 3 of \<^verbatim>\<open>expand\<close>: the merge, then the assertion on the stored energy.\<close>

definition merge_flooded ::
  "collaborators \<Rightarrow> string \<times> int \<Rightarrow> landscape \<times> string list \<times> string list \<Rightarrow>
   error + (landscape \<times> string list \<times> string list)" where
  "merge_flooded cb ne s =
     (case merge_node cb (fst ne) (Some (snd ne)) s of
        Inl e \<Rightarrow> Inl e
      | Inr s' \<Rightarrow>
          (case map_of (nodes (fst s')) (fst ne) of
             None \<Rightarrow> Inl KeyError
           | Some d \<Rightarrow> if energy d = Some (snd ne) then Inr s' else Inl AssertionError))"

text \<open>The condition of the comprehension that seeds the flooding with old edges.\<close>

definition seed_edge :: "landscape \<Rightarrow> (string \<times> string) \<times> edge \<Rightarrow> error + bool" where
  "seed_edge l kv =
     (case map_of (nodes l) (fst (fst kv)) of
        None \<Rightarrow> Inl KeyError
      | Some d0 \<Rightarrow>
          if \<not> active d0 then Inr False
          else (case map_of (nodes l) (snd (fst kv)) of
                  None \<Rightarrow> Inl KeyError
                | Some d1 \<Rightarrow>
                    if \<not> active d1 then Inr False
                    else (case saddle_energy (snd kv) of
                            None \<Rightarrow> Inl KeyError
                          | Some se \<Rightarrow> Inr (se \<noteq> None))))"

definition expand_grow ::
  "collaborators \<Rightarrow> landscape \<Rightarrow> string \<Rightarrow> string \<Rightarrow> string \<Rightarrow> bool \<Rightarrow>
   error + (landscape \<times> string list \<times> string list \<times> (real \<times> real \<times> real \<times> real) option)" where
  "expand_grow cb l seq future mfess performance_report =
     (let parents = map (take (length seq)) (active_local_mins l);
          fraying_nodes = find_fraying_neighbors cb seq parents (mfree l)
      in
      ebind (merge_node cb mfess None (l, [], [])) (\<lambda>s1.
      ebind (fold_err (\<lambda>fns. fold_err (\<lambda>fn. merge_node cb (fn @ future) None) fns)
               (map snd fraying_nodes) s1) (\<lambda>s2.
        let ndata_keys = dict_keys (map (\<lambda>(n, d). (take (length seq) n, d))
                                      (filter (\<lambda>(n, d). active d) (nodes (fst s2))));
            gnodes = fst (get_guide_graph cb seq ndata_keys);
            gedges = snd (get_guide_graph cb seq ndata_keys)
        in
        if \<not> list_all (\<lambda>(ss, en). ss \<noteq> []) gnodes then Inl AssertionError
        else
      ebind (fold_err (\<lambda>(ss, en). merge_node cb (ss @ future) None) gnodes s2) (\<lambda>s3.
        let ndata = filter (\<lambda>(n, d). active d) (nodes (fst s3));
            lgedges = remdups (map (\<lambda>(x, y). (x @ future, y @ future)) gedges)
        in
      ebind (filter_err (seed_edge (fst s3)) (edges (fst s3))) (\<lambda>edata.
        let flooded = neighborhood_flooding cb (sequence l, fpwm l) ndata lgedges edata (minh l)
        in
      ebind (fold_err (merge_flooded cb) (fst flooded) s3) (\<lambda>s4.
      ebind (fold_err (\<lambda>(xy, se) l'. addedge l' (fst xy) (snd xy) None (Some se))
               (snd flooded) (fst s4)) (\<lambda>l5.
        Inr (l5, fst (snd s4), snd (snd s4),
             if performance_report then Some (timing cb) else None))))))))"

definition expand ::
  "collaborators \<Rightarrow> landscape \<Rightarrow> bool \<Rightarrow>
   error + (landscape \<times> string list \<times> string list \<times> (real \<times> real \<times> real \<times> real) option)" where
  "expand cb l0 performance_report =
     (let fseq = sequence l0;
          l = l0\<lparr>transcript_length :=
                   (if length fseq < transcript_length l0 + 1 then length fseq
                    else transcript_length l0 + 1)\<rparr>;
          seq = transcript l;
          future = replicate (length fseq - length seq) (CHR ''.'');
          mfess = backtrack cb (length seq) @ future
      in
      if length (nodes l) = 0
      then (case addnode cb l mfess (Some mfess) 1 None None True 0 None None None of
              Inl e \<Rightarrow> Inl e
            | Inr l' \<Rightarrow>
                Inr (l', [mfess], [], if performance_report then Some (0, 0, 0, 0) else None))
      else expand_grow cb l seq future mfess performance_report)"

section \<open>Coarse graining\<close>

text \<open>
  The first loop of \<^verbatim>\<open>get_coarse_network\<close>: every node gets fresh empty
  \<^verbatim>\<open>lminreps\<close> and \<^verbatim>\<open>hiddennodes\<close>; an inactive node with occupancy hands
  it in equal shares to the nodes of its \<^verbatim>\<open>occtransfer\<close> set (iterating
  \<^verbatim>\<open>None\<close> is a \<^verbatim>\<open>TypeError\<close>).
\<close>

definition transfer_step :: "string \<Rightarrow> nat \<Rightarrow> string \<Rightarrow> landscape \<Rightarrow> error + landscape" where
  "transfer_step n len tn l =
     (case map_of (nodes l) tn of
        None \<Rightarrow> Inl KeyError
      | Some dt \<Rightarrow>
          if \<not> active dt then Inl AssertionError
          else (case map_of (nodes l) n of
                  None \<Rightarrow> Inl KeyError
                | Some dn \<Rightarrow>
                    Inr (update_node tn
                           (\<lambda>d. d\<lparr>occupancy := occupancy d + occupancy dn / real len\<rparr>) l)))"

definition reset_step :: "string \<Rightarrow> landscape \<Rightarrow> error + landscape" where
  "reset_step n l0 =
     (let l = update_node n (\<lambda>d. d\<lparr>lminreps := Some [], hiddennodes := Some []\<rparr>) l0 in
      case map_of (nodes l) n of
        None \<Rightarrow> Inl KeyError
      | Some d \<Rightarrow>
          if \<not> active d \<and> occupancy d \<noteq> 0
          then (case occtransfer d of
                  None \<Rightarrow> Inl TypeError
                | Some ts \<Rightarrow>
                    (case fold_err (transfer_step n (length ts)) ts l of
                       Inl e \<Rightarrow> Inl e
                     | Inr l' \<Rightarrow> Inr (update_node n (\<lambda>d. d\<lparr>occupancy := 0\<rparr>) l')))
          else Inr l)"

text \<open>The condition of the comprehension that restricts the edges to active endpoints.\<close>

definition active_edge :: "landscape \<Rightarrow> (string \<times> string) \<times> edge \<Rightarrow> error + bool" where
  "active_edge l kv =
     (case map_of (nodes l) (fst (fst kv)) of
        None \<Rightarrow> Inl KeyError
      | Some d0 \<Rightarrow>
          if \<not> active d0 then Inr False
          else (case map_of (nodes l) (snd (fst kv)) of
                  None \<Rightarrow> Inl KeyError
                | Some d1 \<Rightarrow> Inr (active d1)))"

text \<open>
  One coarse edge: the saddle energy of the coarse edge data, the energy of the source
  in the coarse node data, the barrier in kcal/mol and the Arrhenius weight
  \<^verbatim>\<open>k0 * math.e**(-bar/RT)\<close>.
\<close>

definition cg_edge_step ::
  "landscape \<Rightarrow> (string \<times> node) list \<Rightarrow> (string \<times> string) \<times> edge \<Rightarrow>
   ((string \<times> string) \<times> cg_edge) list \<Rightarrow> error + ((string \<times> string) \<times> cg_edge) list" where
  "cg_edge_step l cg_ndata xye acc =
     (case saddle_energy (snd xye) of
        None \<Rightarrow> Inl KeyError
      | Some seo \<Rightarrow>
          (case map_of cg_ndata (fst (fst xye)) of
             None \<Rightarrow> Inl KeyError
           | Some dx \<Rightarrow>
               (case seo of
                  None \<Rightarrow> Inl TypeError
                | Some se \<Rightarrow>
                    (case energy dx of
                       None \<Rightarrow> Inl TypeError
                     | Some ex \<Rightarrow>
                         let bar = real_of_int (se - ex) / 100 in
                         if RT l = 0 then Inl ZeroDivisionError
                         else Inr (AList.update (fst xye)
                                     \<lparr>cg_saddle_energy = se,
                                      cg_weight = k0 l * exp 1 powr (- bar / RT l)\<rparr> acc)))))"

definition hide_step :: "string \<Rightarrow> string \<Rightarrow> landscape \<Rightarrow> error + landscape" where
  "hide_step lmin hn l =
     (case map_of (nodes l) hn of
        None \<Rightarrow> Inl KeyError
      | Some d \<Rightarrow>
          if \<not> active d then Inl AssertionError
          else (case lminreps d of
                  None \<Rightarrow> Inl AttributeError
                | Some reps \<Rightarrow>
                    Inr (update_node hn (\<lambda>d. d\<lparr>lminreps := Some (set_add lmin reps)\<rparr>) l)))"

definition mapping_step :: "string \<times> string list \<Rightarrow> landscape \<Rightarrow> error + landscape" where
  "mapping_step lh l =
     (case map_of (nodes l) (fst lh) of
        None \<Rightarrow> Inl KeyError
      | Some d \<Rightarrow>
          if \<not> active d then Inl AssertionError
          else (case fold_err (hide_step (fst lh)) (snd lh) l of
                  Inl e \<Rightarrow> Inl e
                | Inr l' \<Rightarrow>
                    Inr (update_node (fst lh) (\<lambda>d. d\<lparr>hiddennodes := Some (snd lh)\<rparr>) l')))"

definition lrep_step :: "string \<Rightarrow> nat \<Rightarrow> string \<Rightarrow> landscape \<Rightarrow> error + landscape" where
  "lrep_step hn len lrep l =
     (case map_of (nodes l) lrep of
        None \<Rightarrow> Inl KeyError
      | Some dr \<Rightarrow>
          (case map_of (nodes l) hn of
             None \<Rightarrow> Inl KeyError
           | Some dh \<Rightarrow>
               Inr (update_node lrep
                      (\<lambda>d. d\<lparr>occupancy := occupancy d + occupancy dh / real len\<rparr>) l)))"

text \<open>
  The last loop. Its sanity check reads \<^verbatim>\<open>self.nodes[n]\<close>, where \<^verbatim>\<open>n\<close> is the
  variable left over from the first loop, that is the last key of the node dictionary
  (\<open>None\<close> when that loop never ran and the name is unbound).
\<close>

definition move_step :: "string option \<Rightarrow> string \<Rightarrow> landscape \<Rightarrow> error + landscape" where
  "move_step stale hn l =
     (case stale of
        None \<Rightarrow> Inl NameError
      | Some n \<Rightarrow>
          (case map_of (nodes l) n of
             None \<Rightarrow> Inl KeyError
           | Some dn \<Rightarrow>
               if \<not> active dn \<and> occupancy dn \<noteq> 0 then Inl AssertionError
               else (case map_of (nodes l) hn of
                       None \<Rightarrow> Inl KeyError
                     | Some dh \<Rightarrow>
                         (case (if occupancy dh \<noteq> 0
                                then (case lminreps dh of
                                        None \<Rightarrow> Inl TypeError
                                      | Some reps \<Rightarrow> fold_err (lrep_step hn (length reps)) reps l)
                                else Inr l) of
                            Inl e \<Rightarrow> Inl e
                          | Inr l' \<Rightarrow>
                              Inr (update_node hn
                                     (\<lambda>d. d\<lparr>occupancy := 0, active := False\<rparr>) l')))))"

definition last_key :: "('k \<times> 'v) list \<Rightarrow> 'k option" where
  "last_key kvs = (if kvs = [] then None else Some (fst (last kvs)))"

definition get_coarse_network :: "collaborators \<Rightarrow> landscape \<Rightarrow> error + (landscape \<times> nat \<times> nat)" where
  "get_coarse_network cb l0 =
     ebind (fold_err reset_step (map fst (nodes l0)) l0) (\<lambda>l1.
       let ndata = filter (\<lambda>(n, d). active d) (nodes l1) in
     ebind (filter_err (active_edge l1) (edges l1)) (\<lambda>edata.
       let cg = top_down_coarse_graining cb ndata edata (minh l1);
           cg_ndata = fst cg;
           cg_edata = fst (snd cg);
           cg_mapping = snd (snd cg)
       in
       if \<not> list_all (\<lambda>(n, d). map_of ndata n \<noteq> None) cg_ndata then Inl AssertionError
       else
     ebind (fold_err (cg_edge_step l1 cg_ndata) cg_edata []) (\<lambda>cge.
     ebind (fold_err mapping_step cg_mapping (l1\<lparr>cg_edges := cge\<rparr>)) (\<lambda>l2.
     ebind (fold_err (move_step (last_key (nodes l0))) (hidden_nodes l2) l2) (\<lambda>l3.
       Inr (l3, length cg_ndata, length cg_edata))))))"

section \<open>Kinetics\<close>

definition node_occupancy :: "landscape \<Rightarrow> string \<Rightarrow> real" where
  "node_occupancy l x = (case map_of (nodes l) x of Some d \<Rightarrow> occupancy d | None \<Rightarrow> 0)"

definition node_energy :: "landscape \<Rightarrow> string \<Rightarrow> int option" where
  "node_energy l x = (case map_of (nodes l) x of Some d \<Rightarrow> energy d | None \<Rightarrow> None)"

text \<open>
  \<^verbatim>\<open>get_occupancies\<close> sorts the active local minima by energy (a comparison with
  \<^verbatim>\<open>None\<close> is a \<^verbatim>\<open>TypeError\<close> when there is more than one element to sort).
\<close>

definition get_occupancies :: "landscape \<Rightarrow> error + (string list \<times> real list)" where
  "get_occupancies l =
     (let lms = active_local_mins l in
      if 1 < length lms \<and> \<not> list_all (\<lambda>x. node_energy l x \<noteq> None) lms then Inl TypeError
      else
        let snodes = sort_key (\<lambda>x. case node_energy l x of Some e \<Rightarrow> e | None \<Rightarrow> 0) lms
        in Inr (snodes, map (node_occupancy l) snodes))"

fun set_occupancies :: "landscape \<Rightarrow> string list \<Rightarrow> real list \<Rightarrow> error + landscape" where
  "set_occupancies l [] pt = Inr l"
| "set_occupancies l (n # ns) [] = Inl IndexError"
| "set_occupancies l (n # ns) (p # pt) =
     (if map_of (nodes l) n = None then Inl KeyError
      else set_occupancies (update_node n (\<lambda>d. d\<lparr>occupancy := p\<rparr>) l) ns pt)"

text \<open>\<^verbatim>\<open>numpy.isclose\<close> with its default tolerances \<^verbatim>\<open>rtol=1e-05, atol=1e-08\<close>.\<close>

definition isclose :: "real \<Rightarrow> real \<Rightarrow> bool" where
  "isclose a b = (\<bar>a - b\<bar> \<le> 1 / 10 ^ 8 + 1 / 10 ^ 5 * \<bar>b\<bar>)"

definition rate_matrix :: "landscape \<Rightarrow> string list \<Rightarrow> real list list" where
  "rate_matrix l snodes =
     map (\<lambda>nj. map (\<lambda>ni. if has_cg_edge l ni nj
                         then (case map_of (cg_edges l) (ni, nj) of
                                 Some e \<Rightarrow> cg_weight e
                               | None \<Rightarrow> 0)
                         else 0) snodes) snodes"

text \<open>
  The body of \<^verbatim>\<open>simulate\<close>: the samples it yields, in order, and the exception that
  ends it, if any. In the single-node branch every index error happens before the first
  \<^verbatim>\<open>yield\<close>.
\<close>

definition single_node_samples :: "real list \<Rightarrow> real list \<Rightarrow> (real \<times> real list) list" where
  "single_node_samples tms force =
     (if hd tms \<noteq> hd force then [(hd tms, [1])] else []) @ map (\<lambda>ft. (ft, [1])) force"

definition simulate_body ::
  "collaborators \<Rightarrow> landscape \<Rightarrow> string list \<Rightarrow> real list \<Rightarrow> real list \<Rightarrow> real list option \<Rightarrow>
   real \<Rightarrow> real \<Rightarrow> (real \<times> real list) list \<times> error option" where
  "simulate_body cb l snodes p0 tms force atol rtol =
     (if \<not> isclose (sum_list p0) 1 then ([], Some AssertionError)
      else if length snodes = 1
      then (case force of
              None \<Rightarrow>
                if tms = [] then ([], Some IndexError)
                else (single_node_samples tms [last tms], None)
            | Some f \<Rightarrow>
                if f = [] \<or> tms = [] then ([], Some IndexError)
                else (single_node_samples tms
                        (if last f < last tms then f @ [last tms] else f), None))
      else mx_simulate cb (rate_matrix l snodes) p0 tms force atol rtol)"

text \<open>
  \<^verbatim>\<open>simulate\<close> contains \<^verbatim>\<open>yield\<close>, so it is a generator function: the call
  only creates the generator object and runs none of the body, not even the assertion on
  \<^verbatim>\<open>p0\<close>. The body runs when the consumer asks for samples. A generator is
  modelled by the samples it still has to yield and the exception that follows them.
\<close>

datatype 'a generator = Generator "'a list" "error option"

datatype 'a resumption = Yielded 'a "'a generator" | Raised error | StopIteration

fun gen_next :: "'a generator \<Rightarrow> 'a resumption" where
  "gen_next (Generator (y # ys) e) = Yielded y (Generator ys e)"
| "gen_next (Generator [] (Some e)) = Raised e"
| "gen_next (Generator [] None) = StopIteration"

text \<open>Draining a generator, as \<^verbatim>\<open>list(...)\<close> or a \<^verbatim>\<open>for\<close> loop does.\<close>

fun drain :: "'a generator \<Rightarrow> error + 'a list" where
  "drain (Generator ys None) = Inr ys"
| "drain (Generator ys (Some e)) = Inl e"

definition simulate ::
  "collaborators \<Rightarrow> landscape \<Rightarrow> string list \<Rightarrow> real list \<Rightarrow> real list \<Rightarrow> real list option \<Rightarrow>
   real \<Rightarrow> real \<Rightarrow> error + (real \<times> real list) generator" where
  "simulate cb l snodes p0 tms force atol rtol =
     Inr (Generator (fst (simulate_body cb l snodes p0 tms force atol rtol))
                    (snd (simulate_body cb l snodes p0 tms force atol rtol)))"

section \<open>Pruning\<close>

definition hide_inactive :: "string \<Rightarrow> landscape \<Rightarrow> error + landscape" where
  "hide_inactive hn l =
     (case map_of (nodes l) hn of
        None \<Rightarrow> Inl KeyError
      | Some d \<Rightarrow>
          if occupancy d \<noteq> 0 then Inl AssertionError
          else Inr (update_node hn (\<lambda>d. d\<lparr>active := False\<rparr>) l))"

text \<open>
  The first loop of \<^verbatim>\<open>prune\<close> over the active local minima in ascending occupancy:
  the state is the landscape, \<^verbatim>\<open>tot_pruned\<close> and \<^verbatim>\<open>new_inactive_lms\<close>. The
  membership test \<^verbatim>\<open>lm in keep\<close> is a \<^verbatim>\<open>TypeError\<close> for \<^verbatim>\<open>keep = None\<close>.
\<close>

fun prune_select ::
  "real \<Rightarrow> string set option \<Rightarrow> string list \<Rightarrow> landscape \<Rightarrow> real \<Rightarrow> string list \<Rightarrow>
   error + (landscape \<times> string list)" where
  "prune_select pmin keep [] l tot new = Inr (l, new)"
| "prune_select pmin keep (lm # lms) l tot new =
     (case keep of
        None \<Rightarrow> Inl TypeError
      | Some ks \<Rightarrow>
          if lm \<in> ks then prune_select pmin keep lms l tot new
          else
            (case map_of (nodes l) lm of
               None \<Rightarrow> Inl KeyError
             | Some d \<Rightarrow>
                 if pmin < tot + occupancy d
                 then Inr (update_node lm (\<lambda>d. d\<lparr>pruned := 0\<rparr>) l, new)
                 else
                   (case hiddennodes d of
                      None \<Rightarrow> Inl TypeError
                    | Some hs \<Rightarrow>
                        (case fold_err hide_inactive hs
                                (update_node lm (\<lambda>d. d\<lparr>pruned := 0\<rparr>) l) of
                           Inl e \<Rightarrow> Inl e
                         | Inr l' \<Rightarrow>
                             prune_select pmin keep lms
                               (update_node lm (\<lambda>d. d\<lparr>active := False\<rparr>) l')
                               (tot + occupancy d) (new @ [lm])))))"

text \<open>
  One pass of \<^verbatim>\<open>get_active_nbrs\<close> over the coarse edges: \<^verbatim>\<open>found\<close>, the
  neighbours yielded so far and \<^verbatim>\<open>remaining\<close>.
\<close>

definition nbr_scan_step ::
  "landscape \<Rightarrow> string \<Rightarrow> string set \<Rightarrow> string \<times> string \<Rightarrow> bool \<times> string list \<times> string list \<Rightarrow>
   error + (bool \<times> string list \<times> string list)" where
  "nbr_scan_step l lm forbidden xy s =
     (if fst xy = snd xy then Inl AssertionError
      else if fst xy = lm \<and> snd xy \<notin> forbidden
      then (case map_of (nodes l) (snd xy) of
              None \<Rightarrow> Inl KeyError
            | Some d \<Rightarrow>
                if active d then Inr (True, fst (snd s) @ [snd xy], snd (snd s))
                else Inr (fst s, fst (snd s), snd (snd s) @ [snd xy]))
      else Inr s)"

text \<open>
  \<^verbatim>\<open>get_active_nbrs\<close> is recursive; the first argument bounds the recursion depth,
  and \<open>None\<close> means that the bound was reached. \<^verbatim>\<open>forbidden\<close> is one set object
  shared by all nested calls, so it is threaded through them. The result is the list of
  yielded neighbours, drained by \<^verbatim>\<open>set(...)\<close> in the caller.
\<close>

fun get_active_nbrs ::
  "nat \<Rightarrow> landscape \<Rightarrow> string \<Rightarrow> string set \<Rightarrow> (error + string list \<times> string set) option"
and get_active_nbrs_remaining ::
  "nat \<Rightarrow> landscape \<Rightarrow> string list \<Rightarrow> string set \<Rightarrow> (error + string list \<times> string set) option" where
  "get_active_nbrs 0 l lm forbidden = None"
| "get_active_nbrs (Suc k) l lm forbidden =
     (case fold_err (nbr_scan_step l lm (insert lm forbidden)) (map fst (cg_edges l))
             (False, [], []) of
        Inl e \<Rightarrow> Some (Inl e)
      | Inr s \<Rightarrow>
          if fst s then Some (Inr (fst (snd s), insert lm forbidden))
          else get_active_nbrs_remaining k l (snd (snd s)) (insert lm forbidden))"
| "get_active_nbrs_remaining k l [] forbidden = Some (Inr ([], forbidden))"
| "get_active_nbrs_remaining k l (r # rs) forbidden =
     (case map_of (nodes l) r of
        None \<Rightarrow> Some (Inl KeyError)
      | Some d \<Rightarrow>
          if active d then Some (Inl AssertionError)
          else
            (case get_active_nbrs k l r forbidden of
               None \<Rightarrow> None
             | Some (Inl e) \<Rightarrow> Some (Inl e)
             | Some (Inr yf) \<Rightarrow>
                 (case get_active_nbrs_remaining k l rs (snd yf) of
                    None \<Rightarrow> None
                  | Some (Inl e) \<Rightarrow> Some (Inl e)
                  | Some (Inr yf') \<Rightarrow> Some (Inr (fst yf @ fst yf', snd yf')))))"

text \<open>The second loop of \<^verbatim>\<open>prune\<close>: the transfer targets of the new inactive minima.\<close>

fun assign_transfer :: "nat \<Rightarrow> string list \<Rightarrow> landscape \<Rightarrow> (error + landscape) option" where
  "assign_transfer fuel [] l = Some (Inr l)"
| "assign_transfer fuel (lm # lms) l =
     (case map_of (nodes l) lm of
        None \<Rightarrow> Some (Inl KeyError)
      | Some d \<Rightarrow>
          if active d then Some (Inl AssertionError)
          else
            (case get_active_nbrs fuel l lm {} of
               None \<Rightarrow> None
             | Some (Inl e) \<Rightarrow> Some (Inl e)
             | Some (Inr yf) \<Rightarrow>
                 if remdups (fst yf) = [] then Some (Inl AssertionError)
                 else assign_transfer fuel lms
                        (update_node lm (\<lambda>d. d\<lparr>occtransfer := Some (remdups (fst yf))\<rparr>) l)))"

text \<open>
  The third loop over a snapshot of the node keys: the counter is reset or incremented,
  and a node whose counter exceeds \<^verbatim>\<open>delth\<close> is deleted with the edges that touch it.
\<close>

definition sweep_step ::
  "int \<Rightarrow> string \<Rightarrow> landscape \<times> string list \<times> string list \<Rightarrow>
   error + (landscape \<times> string list \<times> string list)" where
  "sweep_step delth nd s =
     (case map_of (nodes (fst s)) nd of
        None \<Rightarrow> Inl KeyError
      | Some d \<Rightarrow>
          let p = (if active d then 0 else pruned d + 1);
              l1 = update_node nd (\<lambda>d. d\<lparr>pruned := p\<rparr>) (fst s);
              pn = (if \<not> active d \<and> p = 1 then set_add nd (fst (snd s)) else fst (snd s))
          in
          if delth < p
          then Inr (l1\<lparr>edges := filter (\<lambda>(xy, e). nd \<noteq> fst xy \<and> nd \<noteq> snd xy) (edges l1),
                       nodes := AList.delete nd (nodes l1)\<rparr>,
                    pn, set_add nd (snd (snd s)))
          else Inr (l1, pn, snd (snd s)))"

definition prune ::
  "nat \<Rightarrow> landscape \<Rightarrow> real \<Rightarrow> int \<Rightarrow> string set option \<Rightarrow>
   (error + landscape \<times> string list \<times> string list) option" where
  "prune fuel l pmin delth keep =
     (case prune_select pmin keep (sort_key (node_occupancy l) (active_local_mins l)) l 0 [] of
        Inl e \<Rightarrow> Some (Inl e)
      | Inr sel \<Rightarrow>
          (case assign_transfer fuel (snd sel) (fst sel) of
             None \<Rightarrow> None
           | Some (Inl e) \<Rightarrow> Some (Inl e)
           | Some (Inr l2) \<Rightarrow>
               Some (fold_err (sweep_step delth) (map fst (nodes l2)) (l2, [], []))))"

section \<open>Derived notions used in the statements\<close>

text \<open>What \<^verbatim>\<open>list(simulate(...))\<close> gives: the call, then the generator drained.\<close>

definition simulate_samples ::
  "collaborators \<Rightarrow> landscape \<Rightarrow> string list \<Rightarrow> real list \<Rightarrow> real list \<Rightarrow> real list option \<Rightarrow>
   real \<Rightarrow> real \<Rightarrow> error + (real \<times> real list) list" where
  "simulate_samples cb l snodes p0 tms force atol rtol =
     (case simulate cb l snodes p0 tms force atol rtol of Inl e \<Rightarrow> Inl e | Inr g \<Rightarrow> drain g)"

text \<open>
  The effect of the third loop of \<^verbatim>\<open>prune\<close> on one node, the nodes that survive it
  and the keys it deletes.
\<close>

definition aged :: "node \<Rightarrow> node" where
  "aged d = d\<lparr>pruned := (if active d then 0 else pruned d + 1)\<rparr>"

definition swept_nodes :: "int \<Rightarrow> (string \<times> node) list \<Rightarrow> (string \<times> node) list" where
  "swept_nodes delth ns = filter (\<lambda>(k, d). \<not> delth < pruned d) (map (\<lambda>(k, d). (k, aged d)) ns)"

definition swept_keys :: "int \<Rightarrow> (string \<times> node) list \<Rightarrow> string list" where
  "swept_keys delth ns = map fst (filter (\<lambda>(k, d). delth < pruned (aged d)) ns)"

text \<open>Every field but the node dictionary is the same in both landscapes.\<close>

definition only_nodes_changed :: "landscape \<Rightarrow> landscape \<Rightarrow> bool" where
  "only_nodes_changed l l' = (l' = l\<lparr>nodes := nodes l'\<rparr>)"

text \<open>
  The coarse node data \<^verbatim>\<open>cg_ndata\<close> that \<^verbatim>\<open>get_coarse_network\<close> receives
  from the coarse-graining collaborator, and the rate of an edge with saddle energy
  \<open>se\<close> that leaves a node of energy \<open>ex\<close>.
\<close>

definition cg_node_data :: "collaborators \<Rightarrow> landscape \<Rightarrow> (string \<times> node) list" where
  "cg_node_data cb l =
     (case fold_err reset_step (map fst (nodes l)) l of
        Inl e \<Rightarrow> []
      | Inr l1 \<Rightarrow>
          (case filter_err (active_edge l1) (edges l1) of
             Inl e \<Rightarrow> []
           | Inr edata \<Rightarrow>
               fst (top_down_coarse_graining cb (filter (\<lambda>(n, d). active d) (nodes l1)) edata (minh l1))))"

definition arrhenius :: "landscape \<Rightarrow> int \<Rightarrow> int \<Rightarrow> real" where
  "arrhenius l se ex = k0 l * exp (- (real_of_int (se - ex) / 100) / RT l)"

text \<open>
  Two landscapes have the same node keys in the same order and their node records are
  related pairwise; and the relation that the first two loops of \<^verbatim>\<open>prune\<close>
  maintain between a node before and after: a node is never activated, an inactive node
  keeps its counter and its transfer targets, a counter that changes is set to 0, and
  occupancy, energy and the coarse-graining sets are untouched.
\<close>

definition nodes_rel :: "(node \<Rightarrow> node \<Rightarrow> bool) \<Rightarrow> landscape \<Rightarrow> landscape \<Rightarrow> bool" where
  "nodes_rel R l l' =
     list_all2 (\<lambda>kd kd'. fst kd = fst kd' \<and> R (snd kd) (snd kd')) (nodes l) (nodes l')"

definition prune_rel :: "node \<Rightarrow> node \<Rightarrow> bool" where
  "prune_rel d d' =
     ((active d' \<longrightarrow> active d) \<and> (\<not> active d \<longrightarrow> pruned d' = pruned d \<and> occtransfer d' = occtransfer d)
      \<and> (pruned d' = pruned d \<or> pruned d' = 0)
      \<and> structure d' = structure d \<and> occupancy d' = occupancy d \<and> identity d' = identity d
      \<and> energy d' = energy d \<and> lminreps d' = lminreps d \<and> hiddennodes d' = hiddennodes d)"

text \<open>
  Successive \<^verbatim>\<open>prune\<close> calls with one \<^verbatim>\<open>delth\<close>; each round has its own
  \<^verbatim>\<open>pmin\<close> and \<^verbatim>\<open>keep\<close>.
\<close>

fun prune_rounds ::
  "nat \<Rightarrow> int \<Rightarrow> (real \<times> string set option) list \<Rightarrow> landscape \<Rightarrow> (error + landscape) option" where
  "prune_rounds fuel delth [] l = Some (Inr l)"
| "prune_rounds fuel delth (a # args) l =
     (case prune fuel l (fst a) delth (snd a) of
        None \<Rightarrow> None
      | Some (Inl e) \<Rightarrow> Some (Inl e)
      | Some (Inr r) \<Rightarrow> prune_rounds fuel delth args (fst r))"

section \<open>Concrete inputs\<close>

text \<open>
  An energy model in which every structure is the open chain with energy 0, no
  neighbours are found, and coarse graining keeps every active node as its own
  representative.
\<close>

definition unpaired_model :: collaborators where
  "unpaired_model =
     \<lparr>backtrack = (\<lambda>n. replicate n (CHR ''.'')),
      eval_structure = (\<lambda>s. 0),
      find_fraying_neighbors = (\<lambda>seq parents mf. []),
      get_guide_graph = (\<lambda>seq ks. ([], [])),
      neighborhood_flooding = (\<lambda>sp nd ge te mh. ([], [])),
      top_down_coarse_graining = (\<lambda>nd ed mh. (nd, ed, map (\<lambda>(n, d). (n, [])) nd)),
      mx_simulate = (\<lambda>R p0 ts force atol rtol. ([], None)),
      timing = (0, 0, 0, 0)\<rparr>"

text \<open>
  Two active local minima after coarse graining, \<open>''(...)''\<close> with occupancy 0.7 and
  \<open>''.....''\<close> with occupancy 0.3, joined by a coarse edge in each direction.
\<close>

definition scenario_B :: landscape where
  "scenario_B =
     \<lparr>sequence = ''GAAAC'', temperature = 37, prefix = ''s'', nodeID = 2,
      nodes =
        [(''(...)'', \<lparr>structure = Some ''(...)'', occupancy = 7 / 10, identity = ''s0'',
                      energy = Some 120, active = True, pruned = 0, lminreps = Some [],
                      hiddennodes = Some [], occtransfer = None\<rparr>),
         (''.....'', \<lparr>structure = Some ''.....'', occupancy = 3 / 10, identity = ''s1'',
                      energy = Some 0, active = True, pruned = 0, lminreps = Some [],
                      hiddennodes = Some [], occtransfer = None\<rparr>)],
      edges =
        [((''(...)'', ''.....''), \<lparr>weight = None, saddle_energy = Some (Some 300)\<rparr>),
         ((''.....'', ''(...)''), \<lparr>weight = None, saddle_energy = Some (Some 300)\<rparr>)],
      cg_edges =
        [((''(...)'', ''.....''), \<lparr>cg_saddle_energy = 300, cg_weight = 10000\<rparr>),
         ((''.....'', ''(...)''), \<lparr>cg_saddle_energy = 300, cg_weight = 1500\<rparr>)],
      k0 = 200000, minh = 0, fpwm = 0, mfree = 6, transcript_length = 5\<rparr>"

text \<open>
  A representative with occupancy 1 and its hidden node \<open>''.....''\<close>, inactive with
  counter 0, as coarse graining leaves them; the two are joined by fine-grained edges.
\<close>

definition scenario_D :: landscape where
  "scenario_D =
     \<lparr>sequence = ''GAAAC'', temperature = 37, prefix = ''s'', nodeID = 2,
      nodes =
        [(''(...)'', \<lparr>structure = Some ''(...)'', occupancy = 1, identity = ''s0'',
                      energy = Some (-120), active = True, pruned = 0, lminreps = Some [],
                      hiddennodes = Some [''.....''], occtransfer = None\<rparr>),
         (''.....'', \<lparr>structure = Some ''.....'', occupancy = 0, identity = ''s1'',
                      energy = Some 0, active = False, pruned = 0, lminreps = Some [''(...)''],
                      hiddennodes = Some [], occtransfer = None\<rparr>)],
      edges =
        [((''(...)'', ''.....''), \<lparr>weight = None, saddle_energy = Some (Some 0)\<rparr>),
         ((''.....'', ''(...)''), \<lparr>weight = None, saddle_energy = Some (Some 0)\<rparr>)],
      cg_edges = [],
      k0 = 200000, minh = 0, fpwm = 0, mfree = 6, transcript_length = 5\<rparr>"

definition exclusive :: "landscape \<Rightarrow> bool" where
  "exclusive l =
     list_all (\<lambda>(k, d). \<not> (set_truthy (lminreps d) \<and> set_truthy (hiddennodes d))) (nodes l)"

definition unique_keys :: "landscape \<Rightarrow> bool" where
  "unique_keys l = distinct (map fst (nodes l))"

definition all_nodes :: "(string \<Rightarrow> node \<Rightarrow> bool) \<Rightarrow> landscape \<Rightarrow> bool" where
  "all_nodes N l = (\<forall>k d. map_of (nodes l) k = Some d \<longrightarrow> N k d)"

definition occ_rel :: "node \<Rightarrow> node \<Rightarrow> bool" where
  "occ_rel d d' = (d' = d\<lparr>occupancy := occupancy d'\<rparr>)"

definition sets_rel :: "node \<Rightarrow> node \<Rightarrow> bool" where
  "sets_rel d d' = (d' = d\<lparr>lminreps := lminreps d', hiddennodes := hiddennodes d'\<rparr>)"

definition move_rel :: "node \<Rightarrow> node \<Rightarrow> bool" where
  "move_rel d d' = (d' = d\<lparr>occupancy := occupancy d', active := active d'\<rparr>)"

text \<open>
  Modelled from the spec: the coarse-graining collaborator
  (\<^verbatim>\<open>rnafolding.top_down_coarse_graining\<close>, not part of \<^verbatim>\<open>landscape.py\<close>)
  ``partitions active nodes into local-minimum representatives and, per representative,
  the set of hidden dependents'': no representative is a hidden dependent.
\<close>

definition partition_mapping :: "(string \<times> string list) list \<Rightarrow> bool" where
  "partition_mapping m =
     list_all (\<lambda>(lmin, hidden). list_all (\<lambda>(lmin', hidden'). lmin \<notin> set hidden') m) m"

definition coarse_graining_partitions :: "collaborators \<Rightarrow> bool" where
  "coarse_graining_partitions cb =
     (\<forall>nd ed mh. partition_mapping (snd (snd (top_down_coarse_graining cb nd ed mh))))"

definition fresh_sets :: "string \<Rightarrow> node \<Rightarrow> bool" where
  "fresh_sets k d = (lminreps d = Some [] \<and> hiddennodes d = Some [])"

definition active_keys :: "landscape \<Rightarrow> string set" where
  "active_keys l = {k. \<exists>d. map_of (nodes l) k = Some d \<and> active d}"

definition reps_ok :: "(string \<times> string list) list \<Rightarrow> string set \<Rightarrow> string \<Rightarrow> node \<Rightarrow> bool" where
  "reps_ok m A k d =
     (\<exists>reps. lminreps d = Some reps
        \<and> (\<forall>r \<in> set reps. r \<in> A \<and> (\<exists>hidden. (r, hidden) \<in> set m \<and> k \<in> set hidden)))"

definition hidden_ok :: "(string \<times> string list) list \<Rightarrow> string \<Rightarrow> node \<Rightarrow> bool" where
  "hidden_ok m k d =
     (hiddennodes d = Some [] \<or> (\<exists>hidden. (k, hidden) \<in> set m \<and> hiddennodes d = Some hidden))"

datatype op =
  Expand bool
| CoarseGrain
| SetOccupancies "string list" "real list"
| Prune real int "string set option"

fun apply_op :: "collaborators \<Rightarrow> nat \<Rightarrow> op \<Rightarrow> landscape \<Rightarrow> (error + landscape) option" where
  "apply_op cb fuel (Expand pr) l =
     (case expand cb l pr of Inl e \<Rightarrow> Some (Inl e) | Inr r \<Rightarrow> Some (Inr (fst r)))"
| "apply_op cb fuel CoarseGrain l =
     (case get_coarse_network cb l of Inl e \<Rightarrow> Some (Inl e) | Inr r \<Rightarrow> Some (Inr (fst r)))"
| "apply_op cb fuel (SetOccupancies snodes pt) l = Some (set_occupancies l snodes pt)"
| "apply_op cb fuel (Prune pmin delth keep) l =
     (case prune fuel l pmin delth keep of
        None \<Rightarrow> None
      | Some (Inl e) \<Rightarrow> Some (Inl e)
      | Some (Inr r) \<Rightarrow> Some (Inr (fst r)))"

fun run_trace :: "collaborators \<Rightarrow> nat \<Rightarrow> op list \<Rightarrow> landscape \<Rightarrow> (error + landscape list) option" where
  "run_trace cb fuel [] l = Some (Inr [])"
| "run_trace cb fuel (x # xs) l =
     (case apply_op cb fuel x l of
        None \<Rightarrow> None
      | Some (Inl e) \<Rightarrow> Some (Inl e)
      | Some (Inr l1) \<Rightarrow>
          (case run_trace cb fuel xs l1 of
             None \<Rightarrow> None
           | Some (Inl e) \<Rightarrow> Some (Inl e)
           | Some (Inr ls) \<Rightarrow> Some (Inr (l1 # ls))))"

definition hiding_model :: collaborators where
  "hiding_model =
     \<lparr>backtrack = (\<lambda>n. replicate n (CHR ''.'')),
      eval_structure = (\<lambda>s. 0),
      find_fraying_neighbors = (\<lambda>seq parents mf. []),
      get_guide_graph = (\<lambda>seq ks. ([], [])),
      neighborhood_flooding =
        (\<lambda>sp nd ge te mh.
           ([(''.....'', 0), (''(...)'', - 120)],
            [((''.....'', ''(...)''), Some 300), ((''(...)'', ''.....''), Some 300)])),
      top_down_coarse_graining =
        (\<lambda>nd ed mh.
           if length nd = 2 \<and> fst (nd ! 0) \<noteq> fst (nd ! 1)
           then ([nd ! 1], [], [(fst (nd ! 1), [fst (nd ! 0)])])
           else (nd, ed, map (\<lambda>(n, d). (n, [])) nd)),
      mx_simulate = (\<lambda>R p0 ts force atol rtol. ([], None)),
      timing = (0, 0, 0, 0)\<rparr>"

definition two_state_model :: collaborators where
  "two_state_model = hiding_model\<lparr>top_down_coarse_graining := (\<lambda>nd ed mh. (nd, ed, map (\<lambda>(n, d). (n, [])) nd))\<rparr>"

section \<open>Occupancy bookkeeping\<close>



text \<open>
  What the first loop of \<^verbatim>\<open>get_coarse_network\<close> does to a node: the activity flag
  and the transfer targets stay, and the occupancy of an inactive node stays or becomes 0.
\<close>

definition settle_rel :: "node \<Rightarrow> node \<Rightarrow> bool" where
  "settle_rel d d' =
     (active d' = active d \<and> occtransfer d' = occtransfer d
      \<and> (active d \<or> occupancy d' = occupancy d \<or> occupancy d' = 0))"







section \<open>Lookups on absent edges\<close>

text \<open>
  Claim C7. When no fine-grained edge is stored under the pair \<open>(s1, s2)\<close>, the rate
  lookup returns the number 0 and the saddle lookup returns \<^verbatim>\<open>None\<close>; neither
  lookup raises, whether or not \<open>s1\<close> and \<open>s2\<close> are nodes of the graph.
\<close>

theorem get_rate_get_saddle_absent:
  "\<not> has_edge l s1 s2 \<Longrightarrow> get_rate l s1 s2 = Some 0 \<and> get_saddle l s1 s2 = Inr None"
  by (simp add: get_rate_def get_saddle_def)

theorem get_rate_get_saddle_absent_witness:
  "\<not> has_edge (init_landscape ''GGGAAACCC'' 37 ''s'') ''(((...)))'' ''.........''
   \<and> has_node (init_landscape ''GGGAAACCC'' 37 ''s'') ''(((...)))'' = False
   \<and> get_rate (init_landscape ''GGGAAACCC'' 37 ''s'') ''(((...)))'' ''.........'' = Some 0
   \<and> get_saddle (init_landscape ''GGGAAACCC'' 37 ''s'') ''(((...)))'' ''.........'' = Inr None"
proof -
  have h: "\<not> has_edge (init_landscape ''GGGAAACCC'' 37 ''s'') ''(((...)))'' ''.........''"
    by (simp add: has_edge_def init_landscape_def)
  have n: "has_node (init_landscape ''GGGAAACCC'' 37 ''s'') ''(((...)))'' = False"
    by (simp add: has_node_def init_landscape_def)
  from get_rate_get_saddle_absent [OF h] h n show ?thesis by simp
qed

section \<open>Basic facts about the store and the sweep\<close>

lemma nodes_update_node [simp]: "nodes (update_node k f l) = AList.map_entry k f (nodes l)"
  and edges_update_node [simp]: "edges (update_node k f l) = edges l"
  and cg_edges_update_node [simp]: "cg_edges (update_node k f l) = cg_edges l"
  by (simp_all add: update_node_def)

lemma map_entry_append_fresh:
  "k \<notin> fst ` set pre \<Longrightarrow> AList.map_entry k f (pre @ (k, d) # rest) = pre @ (k, f d) # rest"
  by (induction pre) auto

lemma delete_append_fresh:
  "k \<notin> fst ` set pre \<Longrightarrow> k \<notin> fst ` set rest \<Longrightarrow> AList.delete k (pre @ (k, d) # rest) = pre @ rest"
  by (induction pre) auto

lemma map_of_append_fresh:
  "k \<notin> fst ` set pre \<Longrightarrow> map_of (pre @ (k, d) # rest) k = Some d"
  by (induction pre) auto

lemma sweep_fold:
  assumes "distinct (map fst (pre @ rest))" and "nodes l = pre @ rest"
  shows "\<exists>pn' dn'. fold_err (sweep_step delth) (map fst rest) (l, pn, dn) =
         Inr (l\<lparr>nodes := pre @ swept_nodes delth rest,
                 edges := filter (\<lambda>(xy, e). fst xy \<notin> set (swept_keys delth rest) \<and>
                                            snd xy \<notin> set (swept_keys delth rest)) (edges l)\<rparr>, pn', dn')
     \<and> set dn' = set dn \<union> set (swept_keys delth rest)
     \<and> set pn' = set pn \<union> {k. \<exists>d. (k, d) \<in> set rest \<and> \<not> active d \<and> pruned d = 0}"
  using assms
proof (induction rest arbitrary: pre l pn dn)
  case Nil
  then show ?case by (simp add: swept_nodes_def swept_keys_def)
next
  case (Cons kd rest)
  obtain k d where kd: "kd = (k, d)" by (cases kd)
  from Cons.prems kd have fresh: "k \<notin> fst ` set pre" "k \<notin> fst ` set rest" by auto
  have look: "map_of (nodes l) k = Some d"
    unfolding Cons.prems(2) kd by (rule map_of_append_fresh [OF fresh(1)])
  define pn1 where "pn1 = (if \<not> active d \<and> pruned d = 0 then set_add k pn else pn)"
  have pn1: "set pn1 = set pn \<union> (if \<not> active d \<and> pruned d = 0 then {k} else {})"
    by (auto simp: pn1_def set_add_def)
  show ?case
  proof (cases "delth < pruned (aged d)")
    case True
    define l1 where "l1 = l\<lparr>nodes := pre @ rest,
        edges := filter (\<lambda>(xy, e). k \<noteq> fst xy \<and> k \<noteq> snd xy) (edges l)\<rparr>"
    have step: "sweep_step delth k (l, pn, dn) = Inr (l1, pn1, set_add k dn)"
      using True look Cons.prems(2) kd fresh
      by (auto simp: sweep_step_def l1_def pn1_def aged_def Let_def map_entry_append_fresh
            delete_append_fresh update_node_def)
    have n1: "nodes l1 = pre @ rest" by (simp add: l1_def)
    from Cons.prems(1) kd have d1: "distinct (map fst (pre @ rest))" by auto
    from Cons.IH [OF d1 n1, of pn1 "set_add k dn"]
    obtain pn' dn' where IH:
      "fold_err (sweep_step delth) (map fst rest) (l1, pn1, set_add k dn) =
         Inr (l1\<lparr>nodes := pre @ swept_nodes delth rest,
                 edges := filter (\<lambda>(xy, e). fst xy \<notin> set (swept_keys delth rest) \<and>
                                            snd xy \<notin> set (swept_keys delth rest)) (edges l1)\<rparr>, pn', dn')"
      "set dn' = set (set_add k dn) \<union> set (swept_keys delth rest)"
      "set pn' = set pn1 \<union> {k. \<exists>d. (k, d) \<in> set rest \<and> \<not> active d \<and> pruned d = 0}"
      by blast
    have sk: "swept_keys delth (kd # rest) = k # swept_keys delth rest"
      using True kd by (simp add: swept_keys_def)
    have sn: "swept_nodes delth (kd # rest) = swept_nodes delth rest"
      using True kd by (simp add: swept_nodes_def)
    have ed: "filter (\<lambda>(xy, e). fst xy \<notin> set (swept_keys delth rest) \<and>
                                  snd xy \<notin> set (swept_keys delth rest)) (edges l1) =
              filter (\<lambda>(xy, e). fst xy \<notin> set (swept_keys delth (kd # rest)) \<and>
                                  snd xy \<notin> set (swept_keys delth (kd # rest))) (edges l)"
      unfolding sk by (auto simp: l1_def intro: filter_cong)
    have "fold_err (sweep_step delth) (map fst (kd # rest)) (l, pn, dn) =
         Inr (l\<lparr>nodes := pre @ swept_nodes delth (kd # rest),
                 edges := filter (\<lambda>(xy, e). fst xy \<notin> set (swept_keys delth (kd # rest)) \<and>
                                            snd xy \<notin> set (swept_keys delth (kd # rest))) (edges l)\<rparr>, pn', dn')"
      using step IH(1) kd unfolding ed sn by (simp add: l1_def)
    moreover have "set dn' = set dn \<union> set (swept_keys delth (kd # rest))"
      using IH(2) sk by (auto simp: set_add_def)
    moreover have "set pn' = set pn \<union> {k. \<exists>d. (k, d) \<in> set (kd # rest) \<and> \<not> active d \<and> pruned d = 0}"
      using IH(3) pn1 kd fresh by (auto simp: image_iff split: if_splits)
    ultimately show ?thesis by blast
  next
    case False
    define l1 where "l1 = l\<lparr>nodes := (pre @ [(k, aged d)]) @ rest\<rparr>"
    have step: "sweep_step delth k (l, pn, dn) = Inr (l1, pn1, dn)"
      using False look Cons.prems(2) kd fresh
      by (auto simp: sweep_step_def l1_def pn1_def aged_def Let_def map_entry_append_fresh update_node_def)
    have n1: "nodes l1 = (pre @ [(k, aged d)]) @ rest" by (simp add: l1_def)
    from Cons.prems(1) kd have d1: "distinct (map fst ((pre @ [(k, aged d)]) @ rest))" by auto
    from Cons.IH [OF d1 n1, of pn1 dn]
    obtain pn' dn' where IH:
      "fold_err (sweep_step delth) (map fst rest) (l1, pn1, dn) =
         Inr (l1\<lparr>nodes := (pre @ [(k, aged d)]) @ swept_nodes delth rest,
                 edges := filter (\<lambda>(xy, e). fst xy \<notin> set (swept_keys delth rest) \<and>
                                            snd xy \<notin> set (swept_keys delth rest)) (edges l1)\<rparr>, pn', dn')"
      "set dn' = set dn \<union> set (swept_keys delth rest)"
      "set pn' = set pn1 \<union> {k. \<exists>d. (k, d) \<in> set rest \<and> \<not> active d \<and> pruned d = 0}"
      by blast
    have sk: "swept_keys delth (kd # rest) = swept_keys delth rest"
      using False kd by (simp add: swept_keys_def)
    have sn: "swept_nodes delth (kd # rest) = (k, aged d) # swept_nodes delth rest"
      using False kd by (simp add: swept_nodes_def)
    have "fold_err (sweep_step delth) (map fst (kd # rest)) (l, pn, dn) =
         Inr (l\<lparr>nodes := pre @ swept_nodes delth (kd # rest),
                 edges := filter (\<lambda>(xy, e). fst xy \<notin> set (swept_keys delth (kd # rest)) \<and>
                                            snd xy \<notin> set (swept_keys delth (kd # rest))) (edges l)\<rparr>, pn', dn')"
      using step IH(1) kd unfolding sk sn by (simp add: l1_def)
    moreover have "set dn' = set dn \<union> set (swept_keys delth (kd # rest))"
      using IH(2) sk by simp
    moreover have "set pn' = set pn \<union> {k. \<exists>d. (k, d) \<in> set (kd # rest) \<and> \<not> active d \<and> pruned d = 0}"
      using IH(3) pn1 kd fresh by (auto simp: image_iff split: if_splits)
    ultimately show ?thesis by blast
  qed
qed

lemma sweep_all:
  assumes "distinct (map fst (nodes l))"
  shows "\<exists>pn dn. fold_err (sweep_step delth) (map fst (nodes l)) (l, [], []) =
         Inr (l\<lparr>nodes := swept_nodes delth (nodes l),
                 edges := filter (\<lambda>(xy, e). fst xy \<notin> set (swept_keys delth (nodes l)) \<and>
                                            snd xy \<notin> set (swept_keys delth (nodes l))) (edges l)\<rparr>, pn, dn)
     \<and> set dn = set (swept_keys delth (nodes l))
     \<and> set pn = {k. \<exists>d. (k, d) \<in> set (nodes l) \<and> \<not> active d \<and> pruned d = 0}"
  using sweep_fold [of "[]" "nodes l" l delth "[]" "[]"] assms by simp


lemma drain_Generator: "drain (Generator ys e) = (case e of None \<Rightarrow> Inr ys | Some x \<Rightarrow> Inl x)"
  by (cases e) auto

section \<open>Bootstrap of the expansion\<close>

text \<open>
  Claim C9. On a landscape without nodes, \<^verbatim>\<open>expand\<close> advances the transcript by one
  symbol (clamped to the sequence length), adds exactly one node, the mfe structure of
  the transcript padded with dots to the full length, with occupancy 1, active, and
  returns it as the only new node with no reactivated node; the edge dictionaries are
  untouched, so no edge is created.
\<close>

theorem expand_bootstrap:
  assumes "nodes l = []"
  shows "\<exists>l' d rep.
     expand cb l pr =
       Inr (l', [backtrack cb (min (transcript_length l + 1) (length (sequence l))) @
                 replicate (length (sequence l) - min (transcript_length l + 1) (length (sequence l)))
                   (CHR ''.'')], [], rep)
     \<and> nodes l' =
         [(backtrack cb (min (transcript_length l + 1) (length (sequence l))) @
           replicate (length (sequence l) - min (transcript_length l + 1) (length (sequence l)))
             (CHR ''.''), d)]
     \<and> occupancy d = 1 \<and> active d \<and> pruned d = 0
     \<and> edges l' = edges l \<and> cg_edges l' = cg_edges l
     \<and> transcript_length l' = min (transcript_length l + 1) (length (sequence l))"
  using assms
  by (auto simp: expand_def addnode_def transcript_def Let_def min_def)

theorem expand_bootstrap_witness:
  "nodes (init_landscape ''ACGUA'' 37 ''s'') = [] \<and>
   (\<exists>l' d rep.
     expand unpaired_model (init_landscape ''ACGUA'' 37 ''s'') False = Inr (l', [''.....''], [], rep)
     \<and> nodes l' = [(''.....'', d)] \<and> occupancy d = 1 \<and> active d
     \<and> edges l' = [] \<and> transcript l' = ''A'')"
proof -
  have h: "nodes (init_landscape ''ACGUA'' 37 ''s'') = []" by (simp add: init_landscape_def)
  from expand_bootstrap [OF h, of unpaired_model False] obtain l' d rep where
    *: "expand unpaired_model (init_landscape ''ACGUA'' 37 ''s'') False = Inr (l', [''.....''], [], rep)"
       "nodes l' = [(''.....'', d)]" "occupancy d = 1" "active d" "edges l' = []" "transcript_length l' = 1"
    by (auto simp: init_landscape_def unpaired_model_def)
  have "sequence l' = ''ACGUA''" using *(1)
    by (auto simp: expand_def addnode_def Let_def init_landscape_def split: if_splits)
  with * h show ?thesis by (auto simp: transcript_def)
qed

section \<open>The single-node fast path of the simulation\<close>

text \<open>
  Claim C3, as stated, fails: with three requested times and no forced times the single
  node branch yields the first and the last time only.
\<close>

theorem simulate_intermediate_time_counterexample:
  "simulate_samples unpaired_model (init_landscape ''ACGUA'' 37 ''s'') [''.....''] [1] [0, 1, 2] None
     (1 / 10 ^ 4) (1 / 10 ^ 4) = Inr [(0, [1]), (2, [1])]"
  by (simp add: simulate_samples_def simulate_def simulate_body_def isclose_def single_node_samples_def)


text \<open>
  Claim C3, amended. For one node, a normalised \<open>p0\<close> and a non-empty list of times,
  every sample has the probability vector \<open>[1]\<close>; without forced times the samples are
  those of the first and of the last requested time; with a non-empty list of forced
  times they are the first requested time (unless it is the first forced time), the
  forced times, and the last requested time when it lies beyond the last forced time.
\<close>

theorem simulate_single_node:
  assumes "length snodes = 1" and "isclose (sum_list p0) 1" and "tms \<noteq> []"
  shows "simulate_samples cb l snodes p0 tms None atol rtol =
           Inr ((if hd tms \<noteq> last tms then [(hd tms, [1])] else []) @ [(last tms, [1])])
     \<and> (f \<noteq> [] \<longrightarrow>
          simulate_samples cb l snodes p0 tms (Some f) atol rtol =
            Inr ((if hd tms \<noteq> hd f then [(hd tms, [1])] else []) @ map (\<lambda>ft. (ft, [1])) f @
                 (if last f < last tms then [(last tms, [1])] else [])))"
  using assms
  by (auto simp: simulate_samples_def simulate_def simulate_body_def single_node_samples_def
        drain_Generator hd_append)

theorem simulate_single_node_witness:
  "length [''.....''] = 1 \<and> isclose (sum_list [1]) 1 \<and> [0, 5] \<noteq> ([] :: real list)
   \<and> simulate_samples unpaired_model scenario_B [''.....''] [1] [0, 5] None (1 / 10 ^ 4) (1 / 10 ^ 4)
       = Inr [(0, [1]), (5, [1])]
   \<and> simulate_samples unpaired_model scenario_B [''.....''] [1] [0, 5] (Some [0, 2]) (1 / 10 ^ 4) (1 / 10 ^ 4)
       = Inr [(0, [1]), (2, [1]), (5, [1])]"
proof -
  have a: "length [''.....''] = 1" by simp
  have b: "isclose (sum_list [1]) 1" by (simp add: isclose_def)
  have c: "[0, 5] \<noteq> ([] :: real list)" and d: "[0, 2] \<noteq> ([] :: real list)" by simp_all
  from simulate_single_node [OF a b c, of unpaired_model scenario_B "1 / 10 ^ 4" "1 / 10 ^ 4" "[0, 2]"]
       a b c d
  show ?thesis by simp
qed

section \<open>The normalisation check of the simulation\<close>

text \<open>
  Claim C4, as stated, fails: the call of \<^verbatim>\<open>simulate\<close> with \<open>p0 = [0.99]\<close> raises
  nothing; it returns a generator whose body has not started.
\<close>

theorem simulate_unnormalised_counterexample:
  "simulate unpaired_model (init_landscape ''ACGUA'' 37 ''s'') [''.....''] [99 / 100] [0, 1] None
     (1 / 10 ^ 4) (1 / 10 ^ 4) = Inr (Generator [] (Some AssertionError))"
  by (simp add: simulate_def simulate_body_def isclose_def)


text \<open>
  Claim C4, amended. When \<open>p0\<close> does not sum to 1 within the tolerance of
  \<^verbatim>\<open>numpy.isclose\<close>, the call returns a generator; the assertion fails at the first
  request for a sample, so that no sample is ever produced.
\<close>

theorem simulate_unnormalised:
  assumes "\<not> isclose (sum_list p0) 1"
  shows "\<exists>g. simulate cb l snodes p0 tms force atol rtol = Inr g
              \<and> gen_next g = Raised AssertionError
              \<and> simulate_samples cb l snodes p0 tms force atol rtol = Inl AssertionError"
  using assms by (simp add: simulate_samples_def simulate_def simulate_body_def)

theorem simulate_unnormalised_witness:
  "\<not> isclose (sum_list [99 / 100]) 1
   \<and> simulate_samples unpaired_model scenario_B [''.....''] [99 / 100] [0, 1] None (1 / 10 ^ 4) (1 / 10 ^ 4)
       = Inl AssertionError"
proof -
  have h: "\<not> isclose (sum_list [99 / 100]) 1" by (simp add: isclose_def)
  from simulate_unnormalised [OF h, of unpaired_model scenario_B "[''.....'']" "[0, 1]" None "1 / 10 ^ 4" "1 / 10 ^ 4"] h
  show ?thesis by blast
qed

section \<open>Pruning without a keep container\<close>

text \<open>
  Claim C10. With \<^verbatim>\<open>keep = None\<close> and at least one active local minimum,
  \<^verbatim>\<open>prune\<close> fails with a \<^verbatim>\<open>TypeError\<close> at the first membership test; hence a
  call that runs to completion was given a container or found no active local minimum;
  and without active local minima the call with \<^verbatim>\<open>keep = None\<close> does complete.
\<close>

theorem prune_keep_None:
  "(active_local_mins l \<noteq> [] \<longrightarrow> prune fuel l pmin delth None = Some (Inl TypeError))
   \<and> (prune fuel l pmin delth keep = Some (Inr r) \<longrightarrow> keep \<noteq> None \<or> active_local_mins l = [])
   \<and> (active_local_mins l = [] \<and> distinct (map fst (nodes l)) \<longrightarrow>
        (\<exists>r. prune fuel l pmin delth None = Some (Inr r)))"
proof -
  have a: "prune fuel l pmin delth None = Some (Inl TypeError)" if "active_local_mins l \<noteq> []"
  proof -
    from that have "sort_key (node_occupancy l) (active_local_mins l) \<noteq> []"
      by (metis length_sort list.size(3) length_0_conv)
    then obtain x xs where "sort_key (node_occupancy l) (active_local_mins l) = x # xs"
      by (cases "sort_key (node_occupancy l) (active_local_mins l)") auto
    then show ?thesis by (simp add: prune_def)
  qed
  have b: "\<exists>r. prune fuel l pmin delth None = Some (Inr r)"
    if "active_local_mins l = []" and "distinct (map fst (nodes l))"
    using that sweep_all [OF that(2), of delth] by (auto simp: prune_def)
  have c: "keep \<noteq> None \<or> active_local_mins l = []"
    if "prune fuel l pmin delth keep = Some (Inr r)"
  proof (rule ccontr)
    assume "\<not> (keep \<noteq> None \<or> active_local_mins l = [])"
    then have "keep = None" and "active_local_mins l \<noteq> []" by auto
    with a that show False by simp
  qed
  from a b c show ?thesis by blast
qed

theorem prune_keep_None_witness:
  "active_local_mins scenario_B \<noteq> []
   \<and> prune 1 scenario_B (3 / 10) 10 None = Some (Inl TypeError)
   \<and> active_local_mins (init_landscape ''GAAAC'' 37 ''s'') = []
   \<and> (\<exists>r. prune 1 (init_landscape ''GAAAC'' 37 ''s'') (3 / 10) 10 None = Some (Inr r))"
proof -
  have a: "active_local_mins scenario_B \<noteq> []"
    by (simp add: active_local_mins_def scenario_B_def set_truthy_def)
  have b: "active_local_mins (init_landscape ''GAAAC'' 37 ''s'') = []"
    and c: "distinct (map fst (nodes (init_landscape ''GAAAC'' 37 ''s'')))"
    by (simp_all add: active_local_mins_def init_landscape_def)
  from prune_keep_None [of scenario_B 1 "3 / 10" 10 None]
       prune_keep_None [of "init_landscape ''GAAAC'' 37 ''s''" 1 "3 / 10" 10 None] a b c
  show ?thesis by simp
qed

section \<open>Pruning two local minima\<close>

text \<open>
  Claim C2, as stated, fails: after \<^verbatim>\<open>prune(pmin=0.3, delth=10, keep={})\<close> on the
  two minima with occupancies 0.7 and 0.3, the first still has occupancy 0.7 and the
  second still has 0.3; the call only deactivates the second and records the first as
  its transfer target.
\<close>

theorem prune_scenario_B_counterexample:
  "prune 1 scenario_B (3 / 10) 10 (Some {}) =
     Some (Inr (scenario_B\<lparr>nodes :=
        [(''(...)'', \<lparr>structure = Some ''(...)'', occupancy = 7 / 10, identity = ''s0'',
                      energy = Some 120, active = True, pruned = 0, lminreps = Some [],
                      hiddennodes = Some [], occtransfer = None\<rparr>),
         (''.....'', \<lparr>structure = Some ''.....'', occupancy = 3 / 10, identity = ''s1'',
                      energy = Some 0, active = False, pruned = 1, lminreps = Some [],
                      hiddennodes = Some [], occtransfer = Some [''(...)'']\<rparr>)]\<rparr>, [''.....''], []))"
  by (simp add: prune_def scenario_B_def active_local_mins_def set_truthy_def node_occupancy_def
        update_node_def nbr_scan_step_def sweep_step_def set_add_def Let_def hide_inactive_def)

text \<open>
  Claim C2, amended. For two active local minima \<open>a\<close> (occupancy 0.7) and \<open>b\<close>
  (occupancy 0.3) joined by coarse edges, \<^verbatim>\<open>prune(pmin=0.3, delth=10, keep={})\<close>
  deactivates \<open>b\<close>, sets its \<^verbatim>\<open>occtransfer\<close> to \<open>{a}\<close> and its counter to 1,
  reports it as newly pruned and leaves both occupancies as they were. The first loop of
  the following \<^verbatim>\<open>get_coarse_network\<close> moves the 0.3 to \<open>a\<close>, which then has
  occupancy 1, and zeroes \<open>b\<close>.
\<close>

theorem prune_scenario_B:
  assumes "nodes l = [(a, da), (b, db)]" and "a \<noteq> b"
    and "active da" and "active db"
    and "\<not> set_truthy (lminreps da)" and "\<not> set_truthy (lminreps db)"
    and "occupancy da = 7 / 10" and "occupancy db = 3 / 10"
    and "hiddennodes db = Some []"
    and "map fst (cg_edges l) = [(a, b), (b, a)]"
  shows "prune (Suc k) l (3 / 10) 10 (Some {}) =
           Some (Inr (l\<lparr>nodes := [(a, da\<lparr>pruned := 0\<rparr>),
                                   (b, db\<lparr>active := False, pruned := 1, occtransfer := Some [a]\<rparr>)]\<rparr>,
                      [b], []))
     \<and> fold_err reset_step [a, b]
          (l\<lparr>nodes := [(a, da\<lparr>pruned := 0\<rparr>),
                        (b, db\<lparr>active := False, pruned := 1, occtransfer := Some [a]\<rparr>)]\<rparr>) =
         Inr (l\<lparr>nodes := [(a, da\<lparr>pruned := 0, occupancy := 1, lminreps := Some [], hiddennodes := Some []\<rparr>),
                            (b, db\<lparr>active := False, pruned := 1, occtransfer := Some [a],
                                   occupancy := 0, lminreps := Some [], hiddennodes := Some []\<rparr>)]\<rparr>)"
  using assms
  by (simp add: prune_def active_local_mins_def set_truthy_def node_occupancy_def
        update_node_def nbr_scan_step_def sweep_step_def set_add_def Let_def hide_inactive_def
        reset_step_def transfer_step_def)


theorem prune_scenario_B_witness:
  "map fst (nodes scenario_B) = [''(...)'', ''.....'']
   \<and> map fst (cg_edges scenario_B) = [(''(...)'', ''.....''), (''.....'', ''(...)'')]
   \<and> (\<exists>l' l''. prune (Suc 0) scenario_B (3 / 10) 10 (Some {}) = Some (Inr (l', [''.....''], []))
        \<and> map (\<lambda>(n, d). (n, occupancy d, active d, pruned d, occtransfer d)) (nodes l') =
            [(''(...)'', 7 / 10, True, 0, None), (''.....'', 3 / 10, False, 1, Some [''(...)''])]
        \<and> fold_err reset_step [''(...)'', ''.....''] l' = Inr l''
        \<and> map (\<lambda>(n, d). (n, occupancy d, active d)) (nodes l'') =
            [(''(...)'', 1, True), (''.....'', 0, False)])"
proof -
  define da where "da = snd (nodes scenario_B ! 0)"
  define db where "db = snd (nodes scenario_B ! 1)"
  have n: "nodes scenario_B = [(''(...)'', da), (''.....'', db)]"
    and c: "map fst (cg_edges scenario_B) = [(''(...)'', ''.....''), (''.....'', ''(...)'')]"
    and d: "''(...)'' \<noteq> ''.....''"
    by (simp_all add: scenario_B_def da_def db_def)
  have f: "active da" "active db" "\<not> set_truthy (lminreps da)" "\<not> set_truthy (lminreps db)"
    "occupancy da = 7 / 10" "occupancy db = 3 / 10" "hiddennodes db = Some []"
    and g: "occtransfer da = None"
    by (simp_all add: scenario_B_def set_truthy_def da_def db_def)
  note r = prune_scenario_B [OF n d f c, of 0]
  have k: "map fst (nodes scenario_B) = [''(...)'', ''.....'']" using n by simp
  show ?thesis
    apply (intro conjI exI)
         apply (rule k)
        apply (rule c)
       apply (rule conjunct1 [OF r])
      apply (simp add: f g)
     apply (rule conjunct2 [OF r])
    apply (simp add: f)
    done
qed

section \<open>What the loops of coarse graining leave unchanged\<close>

lemma fold_err_invariant:
  assumes "fold_err f xs s = Inr s'" and "P s"
    and "\<And>x s t. x \<in> set xs \<Longrightarrow> P s \<Longrightarrow> f x s = Inr t \<Longrightarrow> P t"
  shows "P s'"
  using assms
proof (induction xs arbitrary: s)
  case Nil
  then show ?case by simp
next
  case (Cons x xs)
  from Cons.prems(1) obtain t where t: "f x s = Inr t" "fold_err f xs t = Inr s'"
    by (auto split: sum.splits)
  have pt: "P t" using Cons.prems(3) [of x s t] Cons.prems(2) t(1) by simp
  show ?case by (rule Cons.IH [OF t(2) pt]) (use Cons.prems(3) in auto)
qed

lemma only_nodes_changed_refl [simp]: "only_nodes_changed l l"
  by (simp add: only_nodes_changed_def)

lemma only_nodes_changed_update:
  "only_nodes_changed l s \<Longrightarrow> only_nodes_changed l (update_node k f s)"
  unfolding only_nodes_changed_def update_node_def
  by (cases l, cases s) simp

lemma only_nodes_changed_fields:
  assumes "only_nodes_changed l l'"
  shows "edges l' = edges l" "cg_edges l' = cg_edges l" "k0 l' = k0 l" "RT l' = RT l"
    "minh l' = minh l" "sequence l' = sequence l" "temperature l' = temperature l"
proof -
  from assms obtain ns where "l' = l\<lparr>nodes := ns\<rparr>"
    unfolding only_nodes_changed_def by blast
  then show "edges l' = edges l" "cg_edges l' = cg_edges l" "k0 l' = k0 l" "RT l' = RT l"
    "minh l' = minh l" "sequence l' = sequence l" "temperature l' = temperature l"
    by (simp_all add: RT_def Let_def)
qed

lemma transfer_step_frame:
  "transfer_step n len tn s = Inr t \<Longrightarrow> only_nodes_changed l s \<Longrightarrow> only_nodes_changed l t"
  by (auto simp: transfer_step_def only_nodes_changed_update split: option.splits if_splits)

lemma reset_step_frame:
  assumes "reset_step n s = Inr t" and "only_nodes_changed l s"
  shows "only_nodes_changed l t"
proof -
  let ?s1 = "update_node n (\<lambda>d. d\<lparr>lminreps := Some [], hiddennodes := Some []\<rparr>) s"
  have s1: "only_nodes_changed l ?s1" using assms(2) by (rule only_nodes_changed_update)
  show ?thesis
  proof (cases "t = ?s1")
    case True
    with s1 show ?thesis by simp
  next
    case False
    with assms(1) obtain ts l' where
      f: "fold_err (transfer_step n (length ts)) ts ?s1 = Inr l'"
      and t: "t = update_node n (\<lambda>d. d\<lparr>occupancy := 0\<rparr>) l'"
      by (auto simp: reset_step_def Let_def split: option.splits if_splits sum.splits)
    have "only_nodes_changed l l'"
      by (rule fold_err_invariant [OF f, where P = "only_nodes_changed l"])
         (auto intro: s1 transfer_step_frame)
    then show ?thesis unfolding t by (rule only_nodes_changed_update)
  qed
qed

lemma reset_fold_frame:
  assumes "fold_err reset_step ks l = Inr l1"
  shows "only_nodes_changed l l1"
  by (rule fold_err_invariant [OF assms, where P = "only_nodes_changed l"])
     (auto intro: reset_step_frame)

lemma hide_step_frame:
  "hide_step lmin hn s = Inr t \<Longrightarrow> only_nodes_changed l s \<Longrightarrow> only_nodes_changed l t"
  by (auto simp: hide_step_def only_nodes_changed_update split: option.splits if_splits)

lemma mapping_step_frame:
  assumes "mapping_step lh s = Inr t" and "only_nodes_changed l s"
  shows "only_nodes_changed l t"
proof -
  from assms(1) obtain l' where
    f: "fold_err (hide_step (fst lh)) (snd lh) s = Inr l'"
    and t: "t = update_node (fst lh) (\<lambda>d. d\<lparr>hiddennodes := Some (snd lh)\<rparr>) l'"
    by (auto simp: mapping_step_def split: option.splits if_splits sum.splits)
  have "only_nodes_changed l l'"
    by (rule fold_err_invariant [OF f, where P = "only_nodes_changed l"])
       (auto intro: assms(2) hide_step_frame)
  then show ?thesis unfolding t by (rule only_nodes_changed_update)
qed

lemma lrep_step_frame:
  "lrep_step hn len lrep s = Inr t \<Longrightarrow> only_nodes_changed l s \<Longrightarrow> only_nodes_changed l t"
  by (auto simp: lrep_step_def only_nodes_changed_update split: option.splits if_splits)

lemma move_step_frame:
  assumes "move_step stale hn s = Inr t" and "only_nodes_changed l s"
  shows "only_nodes_changed l t"
proof -
  from assms(1) obtain l' where
    f: "l' = s \<or> (\<exists>reps. fold_err (lrep_step hn (length reps)) reps s = Inr l')"
    and t: "t = update_node hn (\<lambda>d. d\<lparr>occupancy := 0, active := False\<rparr>) l'"
    by (auto simp: move_step_def split: option.splits if_splits sum.splits)
  have "only_nodes_changed l l'"
  proof (rule disjE [OF f])
    assume "l' = s" with assms(2) show ?thesis by simp
  next
    assume "\<exists>reps. fold_err (lrep_step hn (length reps)) reps s = Inr l'"
    then obtain reps where r: "fold_err (lrep_step hn (length reps)) reps s = Inr l'" by blast
    show ?thesis
      by (rule fold_err_invariant [OF r, where P = "only_nodes_changed l"])
         (auto intro: assms(2) lrep_step_frame)
  qed
  then show ?thesis unfolding t by (rule only_nodes_changed_update)
qed

lemma cg_edge_step_weights:
  assumes "cg_edge_step l cg_ndata xye acc = Inr acc'"
    and "\<forall>xy ce. map_of acc xy = Some ce \<longrightarrow>
           (\<exists>dx ex. map_of cg_ndata (fst xy) = Some dx \<and> energy dx = Some ex
                     \<and> cg_weight ce = arrhenius l (cg_saddle_energy ce) ex)"
  shows "\<forall>xy ce. map_of acc' xy = Some ce \<longrightarrow>
           (\<exists>dx ex. map_of cg_ndata (fst xy) = Some dx \<and> energy dx = Some ex
                     \<and> cg_weight ce = arrhenius l (cg_saddle_energy ce) ex)"
proof -
  from assms(1) obtain se dx ex where
    s: "map_of cg_ndata (fst (fst xye)) = Some dx" "energy dx = Some ex"
    and acc': "acc' = AList.update (fst xye)
                 \<lparr>cg_saddle_energy = se,
                  cg_weight = k0 l * exp 1 powr (- (real_of_int (se - ex) / 100) / RT l)\<rparr> acc"
    by (auto simp: cg_edge_step_def Let_def split: option.splits if_splits)
  have p: "exp 1 powr z = exp z" for z :: real by (simp add: powr_def)
  show ?thesis
  proof (intro allI impI)
    fix xy ce
    assume m: "map_of acc' xy = Some ce"
    show "\<exists>dx ex. map_of cg_ndata (fst xy) = Some dx \<and> energy dx = Some ex
                     \<and> cg_weight ce = arrhenius l (cg_saddle_energy ce) ex"
    proof (cases "xy = fst xye")
      case True
      with m acc' have "ce = \<lparr>cg_saddle_energy = se,
                  cg_weight = k0 l * exp 1 powr (- (real_of_int (se - ex) / 100) / RT l)\<rparr>"
        by (simp add: update_conv')
      then have "cg_weight ce = arrhenius l (cg_saddle_energy ce) ex"
        by (simp add: arrhenius_def p)
      with s True show ?thesis by blast
    next
      case False
      with m acc' have "map_of acc xy = Some ce" by (simp add: update_conv')
      with assms(2) show ?thesis by blast
    qed
  qed
qed

section \<open>Weights of the coarse edges\<close>

text \<open>
  Claim C8. After a successful \<^verbatim>\<open>get_coarse_network\<close>, every stored coarse edge
  \<open>(x, y)\<close> has the weight \<open>k0 * exp (- ((saddle_energy - energy x) / 100) / RT)\<close>,
  where \<open>energy x\<close> is the energy of the representative \<open>x\<close> in the coarse node data
  and \<open>RT\<close> is 0.61632077549999997 rescaled by \<open>(273.15 + T) / 310.15\<close> (which is
  the factor 1 at 37 degrees).
\<close>

theorem coarse_edge_weight:
  assumes "get_coarse_network cb l = Inr (l', n, m)"
  shows "(\<forall>xy ce. map_of (cg_edges l') xy = Some ce \<longrightarrow>
            (\<exists>dx ex. map_of (cg_node_data cb l) (fst xy) = Some dx \<and> energy dx = Some ex
               \<and> cg_weight ce = k0 l' * exp (- (real_of_int (cg_saddle_energy ce - ex) / 100) / RT l')))
     \<and> RT l' = 61632077549999997 / 10 ^ 17 * (27315 / 100 + temperature l') / (31015 / 100)"
proof -
  from assms obtain l1 edata cge l2 l3 where
    r: "fold_err reset_step (map fst (nodes l)) l = Inr l1"
    and e: "filter_err (active_edge l1) (edges l1) = Inr edata"
    and c: "fold_err (cg_edge_step l1
              (fst (top_down_coarse_graining cb (filter (\<lambda>(n, d). active d) (nodes l1)) edata (minh l1))))
              (fst (snd (top_down_coarse_graining cb (filter (\<lambda>(n, d). active d) (nodes l1)) edata (minh l1))))
              [] = Inr cge"
    and mp: "fold_err mapping_step
              (snd (snd (top_down_coarse_graining cb (filter (\<lambda>(n, d). active d) (nodes l1)) edata (minh l1))))
              (l1\<lparr>cg_edges := cge\<rparr>) = Inr l2"
    and mv: "fold_err (move_step (last_key (nodes l))) (hidden_nodes l2) l2 = Inr l3"
    and l': "l' = l3"
    by (auto simp: get_coarse_network_def ebind_def Let_def split: sum.splits if_splits)
  have nd: "cg_node_data cb l =
      fst (top_down_coarse_graining cb (filter (\<lambda>(n, d). active d) (nodes l1)) edata (minh l1))"
    by (simp add: cg_node_data_def r e)
  let ?P = "\<lambda>acc. \<forall>xy ce. map_of acc xy = Some ce \<longrightarrow>
           (\<exists>dx ex. map_of (cg_node_data cb l) (fst xy) = Some dx \<and> energy dx = Some ex
                     \<and> cg_weight ce = arrhenius l1 (cg_saddle_energy ce) ex)"
  have w: "?P cge"
  proof (rule fold_err_invariant [OF c, where P = ?P])
    show "?P []" by simp
  next
    fix x s t
    assume "?P s" and "cg_edge_step l1
              (fst (top_down_coarse_graining cb (filter (\<lambda>(n, d). active d) (nodes l1)) edata (minh l1)))
              x s = Inr t"
    then show "?P t" unfolding nd [symmetric] by (rule cg_edge_step_weights [rotated])
  qed
  have f2: "only_nodes_changed (l1\<lparr>cg_edges := cge\<rparr>) l2"
    by (rule fold_err_invariant [OF mp, where P = "only_nodes_changed (l1\<lparr>cg_edges := cge\<rparr>)"])
       (auto intro: mapping_step_frame)
  have f3: "only_nodes_changed l2 l3"
    by (rule fold_err_invariant [OF mv, where P = "only_nodes_changed l2"])
       (auto intro: move_step_frame)
  have cg: "cg_edges l' = cge" "k0 l' = k0 l1" "RT l' = RT l1"
    using only_nodes_changed_fields [OF f2] only_nodes_changed_fields [OF f3] l'
    by (simp_all add: RT_def Let_def)
  have "RT l' = 61632077549999997 / 10 ^ 17 * (27315 / 100 + temperature l') / (31015 / 100)"
    by (simp add: RT_def Let_def)
  with w cg show ?thesis by (simp add: arrhenius_def)
qed


theorem coarse_edge_weight_witness:
  "\<exists>l' ce. get_coarse_network unpaired_model scenario_B = Inr (l', 2, 2)
      \<and> map_of (cg_edges l') (''(...)'', ''.....'') = Some ce
      \<and> cg_saddle_energy ce = 300
      \<and> cg_weight ce = 200000 * exp (- (real_of_int (300 - 120) / 100) / (61632077549999997 / 10 ^ 17))"
proof -
  obtain l' where ev: "get_coarse_network unpaired_model scenario_B = Inr (l', 2, 2)"
    and k: "k0 l' = 200000" "temperature l' = 37"
    and ce: "map fst (cg_edges l') = [(''(...)'', ''.....''), (''.....'', ''(...)'')]"
            "map (\<lambda>(xy, ce). cg_saddle_energy ce) (cg_edges l') = [300, 300]"
    by (simp add: get_coarse_network_def ebind_def scenario_B_def unpaired_model_def Let_def
          reset_step_def update_node_def active_edge_def cg_edge_step_def RT_def
          mapping_step_def hidden_nodes_def set_truthy_def last_key_def)
  have nd: "map (\<lambda>(n, d). (n, energy d)) (cg_node_data unpaired_model scenario_B) =
              [(''(...)'', Some 120), (''.....'', Some 0)]"
    by (simp add: cg_node_data_def scenario_B_def unpaired_model_def Let_def
          reset_step_def update_node_def active_edge_def)
  from ce obtain c1 c2 where cs: "cg_edges l' = [((''(...)'', ''.....''), c1), ((''.....'', ''(...)''), c2)]"
    "cg_saddle_energy c1 = 300"
    by (cases "cg_edges l'"; cases "tl (cg_edges l')") auto
  then have m: "map_of (cg_edges l') (''(...)'', ''.....'') = Some c1" by simp
  from coarse_edge_weight [OF ev] m obtain dx ex where
    d: "map_of (cg_node_data unpaired_model scenario_B) ''(...)'' = Some dx" "energy dx = Some ex"
       "cg_weight c1 = k0 l' * exp (- (real_of_int (cg_saddle_energy c1 - ex) / 100) / RT l')"
    by fastforce
  from nd d(1,2) have "ex = 120"
    by (cases "cg_node_data unpaired_model scenario_B") (auto split: if_splits)
  with d(3) k cs(2) have "cg_weight c1 = 200000 * exp (- (real_of_int (300 - 120) / 100) / (61632077549999997 / 10 ^ 17))"
    by (simp add: RT_def)
  with ev m cs(2) show ?thesis by blast
qed

section \<open>What the loops of pruning leave unchanged\<close>

lemma nodes_rel_refl: "(\<And>d. R d d) \<Longrightarrow> nodes_rel R l l"
  by (simp add: nodes_rel_def list_all2_refl)

lemma map_entry_rel:
  assumes "list_all2 (\<lambda>kd kd'. fst kd = fst kd' \<and> R (snd kd) (snd kd')) xs ys"
    and "\<And>d0 d. map_of xs k = Some d0 \<Longrightarrow> map_of ys k = Some d \<Longrightarrow> R d0 d \<Longrightarrow> R d0 (f d)"
  shows "list_all2 (\<lambda>kd kd'. fst kd = fst kd' \<and> R (snd kd) (snd kd')) xs (AList.map_entry k f ys)"
  using assms
proof (induction xs ys rule: list_all2_induct)
  case Nil
  then show ?case by simp
next
  case (Cons x xs y ys)
  obtain k0 d0 where x: "x = (k0, d0)" by (cases x)
  obtain k1 d1 where y: "y = (k1, d1)" by (cases y)
  from Cons.hyps(1) x y have k: "k1 = k0" and r: "R d0 d1" by auto
  show ?case
  proof (cases "k0 = k")
    case True
    have "R d0 (f d1)" using Cons.prems [of d0 d1] r x y k True by simp
    with Cons.hyps(2) x y k True show ?thesis by simp
  next
    case False
    have "list_all2 (\<lambda>kd kd'. fst kd = fst kd' \<and> R (snd kd) (snd kd')) xs (AList.map_entry k f ys)"
      by (rule Cons.IH) (use Cons.prems x y k False in auto)
    with x y k False r show ?thesis by simp
  qed
qed

lemma nodes_rel_update:
  assumes "nodes_rel R l0 s"
    and "\<And>d0 d. map_of (nodes l0) k = Some d0 \<Longrightarrow> map_of (nodes s) k = Some d \<Longrightarrow> R d0 d \<Longrightarrow> R d0 (f d)"
  shows "nodes_rel R l0 (update_node k f s)"
  using assms unfolding nodes_rel_def by (simp add: map_entry_rel)

lemma list_rel_keys:
  "list_all2 (\<lambda>kd kd'. fst kd = fst kd' \<and> R (snd kd) (snd kd')) xs ys \<Longrightarrow> map fst ys = map fst xs"
  by (induction xs ys rule: list_all2_induct) auto

lemma list_rel_lookup:
  "list_all2 (\<lambda>kd kd'. fst kd = fst kd' \<and> R (snd kd) (snd kd')) xs ys \<Longrightarrow>
   (case map_of xs k of None \<Rightarrow> map_of ys k = None
    | Some d \<Rightarrow> (\<exists>d'. map_of ys k = Some d' \<and> R d d'))"
  by (induction xs ys rule: list_all2_induct) (auto split: option.splits)

lemma nodes_rel_keys: "nodes_rel R l l' \<Longrightarrow> map fst (nodes l') = map fst (nodes l)"
  unfolding nodes_rel_def by (rule list_rel_keys)

lemma nodes_rel_Some:
  "nodes_rel R l l' \<Longrightarrow> map_of (nodes l) k = Some d \<Longrightarrow> \<exists>d'. map_of (nodes l') k = Some d' \<and> R d d'"
  unfolding nodes_rel_def using list_rel_lookup [of R "nodes l" "nodes l'" k] by simp

lemma nodes_rel_None:
  "nodes_rel R l l' \<Longrightarrow> map_of (nodes l) k = None \<Longrightarrow> map_of (nodes l') k = None"
  unfolding nodes_rel_def using list_rel_lookup [of R "nodes l" "nodes l'" k] by simp

lemma nodes_rel_Some_rev:
  assumes "nodes_rel R l l'" and "map_of (nodes l') k = Some d'"
  shows "\<exists>d. map_of (nodes l) k = Some d \<and> R d d'"
proof (cases "map_of (nodes l) k")
  case None
  with nodes_rel_None [OF assms(1)] assms(2) show ?thesis by simp
next
  case (Some d)
  with nodes_rel_Some [OF assms(1) Some] assms(2) show ?thesis by simp
qed

lemma prune_rel_refl: "prune_rel d d"
  by (simp add: prune_rel_def)

lemma prune_rel_deactivate: "prune_rel d0 d \<Longrightarrow> prune_rel d0 (d\<lparr>active := False\<rparr>)"
  by (simp add: prune_rel_def)

lemma prune_rel_reset: "active d0 \<Longrightarrow> prune_rel d0 d \<Longrightarrow> prune_rel d0 (d\<lparr>pruned := 0\<rparr>)"
  by (simp add: prune_rel_def)

lemma prune_rel_target: "active d0 \<Longrightarrow> prune_rel d0 d \<Longrightarrow> prune_rel d0 (d\<lparr>occtransfer := x\<rparr>)"
  by (simp add: prune_rel_def)

lemma hide_inactive_rel:
  assumes "hide_inactive hn s = Inr t" and "nodes_rel prune_rel l0 s \<and> only_nodes_changed l0 s"
  shows "nodes_rel prune_rel l0 t \<and> only_nodes_changed l0 t"
proof -
  from assms(1) have t: "t = update_node hn (\<lambda>d. d\<lparr>active := False\<rparr>) s"
    by (auto simp: hide_inactive_def split: option.splits if_splits)
  show ?thesis unfolding t using assms(2)
    by (auto intro!: nodes_rel_update only_nodes_changed_update prune_rel_deactivate)
qed

lemma prune_select_rel:
  assumes "prune_select pmin keep lms s tot new = Inr (t, new')"
    and "nodes_rel prune_rel l0 s" and "only_nodes_changed l0 s"
    and "\<forall>lm \<in> set lms. \<exists>d0. map_of (nodes l0) lm = Some d0 \<and> active d0"
  shows "nodes_rel prune_rel l0 t \<and> only_nodes_changed l0 t"
  using assms
proof (induction lms arbitrary: s tot new)
  case Nil
  then show ?case by simp
next
  case (Cons lm lms)
  from Cons.prems(4) obtain d0 where d0: "map_of (nodes l0) lm = Some d0" "active d0" by auto
  have rest: "\<forall>lm \<in> set lms. \<exists>d0. map_of (nodes l0) lm = Some d0 \<and> active d0"
    using Cons.prems(4) by simp
  let ?s1 = "update_node lm (\<lambda>d. d\<lparr>pruned := 0\<rparr>) s"
  have s1: "nodes_rel prune_rel l0 ?s1 \<and> only_nodes_changed l0 ?s1"
    using Cons.prems(2,3) d0
    by (auto intro!: nodes_rel_update only_nodes_changed_update prune_rel_reset)
  from Cons.prems(1) obtain ks where ks: "keep = Some ks"
    by (cases keep) auto
  show ?case
  proof (cases "lm \<in> ks")
    case True
    with Cons.prems(1) ks have "prune_select pmin keep lms s tot new = Inr (t, new')" by simp
    from Cons.IH [OF this Cons.prems(2,3) rest] show ?thesis .
  next
    case False
    with Cons.prems(1) ks obtain d where d: "map_of (nodes s) lm = Some d"
      by (auto split: option.splits)
    show ?thesis
    proof (cases "pmin < tot + occupancy d")
      case True
      with Cons.prems(1) ks False d have "t = ?s1" by simp
      with s1 show ?thesis by simp
    next
      case nb: False
      with Cons.prems(1) ks False d obtain hs l' where
        hs: "fold_err hide_inactive hs ?s1 = Inr l'"
        and rec: "prune_select pmin keep lms (update_node lm (\<lambda>d. d\<lparr>active := False\<rparr>) l')
                    (tot + occupancy d) (new @ [lm]) = Inr (t, new')"
        by (auto split: option.splits sum.splits)
      have "nodes_rel prune_rel l0 l' \<and> only_nodes_changed l0 l'"
        by (rule fold_err_invariant [OF hs, where P = "\<lambda>s. nodes_rel prune_rel l0 s \<and> only_nodes_changed l0 s"])
           (use s1 hide_inactive_rel in blast)+
      then have "nodes_rel prune_rel l0 (update_node lm (\<lambda>d. d\<lparr>active := False\<rparr>) l')"
        and "only_nodes_changed l0 (update_node lm (\<lambda>d. d\<lparr>active := False\<rparr>) l')"
        by (auto intro!: nodes_rel_update only_nodes_changed_update prune_rel_deactivate)
      from Cons.IH [OF rec this rest] show ?thesis .
    qed
  qed
qed

lemma assign_transfer_rel:
  assumes "assign_transfer fuel lms s = Some (Inr t)"
    and "nodes_rel prune_rel l0 s" and "only_nodes_changed l0 s"
    and "\<forall>lm \<in> set lms. \<exists>d0. map_of (nodes l0) lm = Some d0 \<and> active d0"
  shows "nodes_rel prune_rel l0 t \<and> only_nodes_changed l0 t"
  using assms
proof (induction lms arbitrary: s)
  case Nil
  then show ?case by simp
next
  case (Cons lm lms)
  from Cons.prems(4) obtain d0 where d0: "map_of (nodes l0) lm = Some d0" "active d0" by auto
  have rest: "\<forall>lm \<in> set lms. \<exists>d0. map_of (nodes l0) lm = Some d0 \<and> active d0"
    using Cons.prems(4) by simp
  from Cons.prems(1) obtain ys where
    rec: "assign_transfer fuel lms (update_node lm (\<lambda>d. d\<lparr>occtransfer := Some ys\<rparr>) s) = Some (Inr t)"
    by (auto split: option.splits sum.splits if_splits)
  have "nodes_rel prune_rel l0 (update_node lm (\<lambda>d. d\<lparr>occtransfer := Some ys\<rparr>) s)"
    and "only_nodes_changed l0 (update_node lm (\<lambda>d. d\<lparr>occtransfer := Some ys\<rparr>) s)"
    using Cons.prems(2,3) d0
    by (auto intro!: nodes_rel_update only_nodes_changed_update prune_rel_target)
  from Cons.IH [OF rec this rest] show ?case .
qed


lemma prune_select_new:
  "prune_select pmin keep lms s tot new = Inr (t, new') \<Longrightarrow> set new' \<subseteq> set new \<union> set lms"
proof (induction lms arbitrary: s tot new)
  case Nil
  then show ?case by simp
next
  case (Cons lm lms)
  from Cons.prems have
    "(\<exists>s' tot' . prune_select pmin keep lms s' tot' new = Inr (t, new'))
     \<or> new' = new
     \<or> (\<exists>s' tot'. prune_select pmin keep lms s' tot' (new @ [lm]) = Inr (t, new'))"
    by (auto split: option.splits sum.splits if_splits)
  then show ?case using Cons.IH by fastforce
qed

lemma active_local_mins_lookup:
  assumes "distinct (map fst (nodes l))" and "k \<in> set (active_local_mins l)"
  shows "\<exists>d. map_of (nodes l) k = Some d \<and> active d"
proof -
  from assms(2) obtain d where "(k, d) \<in> set (nodes l)" "active d"
    by (auto simp: active_local_mins_def)
  with assms(1) show ?thesis by auto
qed

lemma prune_round:
  assumes "prune fuel l pmin delth keep = Some (Inr (l', pn, dn))"
    and "distinct (map fst (nodes l))"
  shows "\<exists>l2. nodes_rel prune_rel l l2 \<and> only_nodes_changed l l2
     \<and> l' = l2\<lparr>nodes := swept_nodes delth (nodes l2),
                edges := filter (\<lambda>(xy, e). fst xy \<notin> set (swept_keys delth (nodes l2)) \<and>
                                           snd xy \<notin> set (swept_keys delth (nodes l2))) (edges l2)\<rparr>
     \<and> set dn = set (swept_keys delth (nodes l2))
     \<and> set pn = {k. \<exists>d. (k, d) \<in> set (nodes l2) \<and> \<not> active d \<and> pruned d = 0}"
proof -
  let ?lms = "sort_key (node_occupancy l) (active_local_mins l)"
  from assms(1) obtain l1 new l2 where
    sel: "prune_select pmin keep ?lms l 0 [] = Inr (l1, new)"
    and asg: "assign_transfer fuel new l1 = Some (Inr l2)"
    and sw: "fold_err (sweep_step delth) (map fst (nodes l2)) (l2, [], []) = Inr (l', pn, dn)"
    by (auto simp: prune_def split: sum.splits option.splits)
  have act: "\<forall>lm \<in> set ?lms. \<exists>d0. map_of (nodes l) lm = Some d0 \<and> active d0"
    using active_local_mins_lookup [OF assms(2)] by simp
  have r1: "nodes_rel prune_rel l l1 \<and> only_nodes_changed l l1"
    by (rule prune_select_rel [OF sel _ _ act]) (simp_all add: nodes_rel_refl prune_rel_refl)
  have "set new \<subseteq> set ?lms" using prune_select_new [OF sel] by simp
  with act have act': "\<forall>lm \<in> set new. \<exists>d0. map_of (nodes l) lm = Some d0 \<and> active d0" by blast
  have r2: "nodes_rel prune_rel l l2 \<and> only_nodes_changed l l2"
    using assign_transfer_rel [OF asg _ _ act'] r1 by blast
  have d2: "distinct (map fst (nodes l2))"
    using nodes_rel_keys [of prune_rel l l2] r2 assms(2) by simp
  from sweep_all [OF d2, of delth] sw r2 show ?thesis by auto
qed

lemma map_of_swept_nodes:
  "distinct (map fst ns) \<Longrightarrow>
   map_of (swept_nodes delth ns) k =
     (case map_of ns k of
        None \<Rightarrow> None
      | Some d \<Rightarrow> if delth < pruned (aged d) then None else Some (aged d))"
proof (induction ns)
  case Nil
  then show ?case by (simp add: swept_nodes_def)
next
  case (Cons kd ns)
  obtain k0 d0 where kd: "kd = (k0, d0)" by (cases kd)
  from Cons.prems kd have fresh: "k0 \<notin> fst ` set ns" and dist: "distinct (map fst ns)" by auto
  have ih: "map_of (swept_nodes delth ns) k =
     (case map_of ns k of None \<Rightarrow> None
      | Some d \<Rightarrow> if delth < pruned (aged d) then None else Some (aged d))"
    by (rule Cons.IH [OF dist])
  have none: "map_of ns k0 = None" using fresh by (simp add: map_of_eq_None_iff)
  have sw: "swept_nodes delth (kd # ns) =
      (if delth < pruned (aged d0) then swept_nodes delth ns else (k0, aged d0) # swept_nodes delth ns)"
    by (simp add: swept_nodes_def kd)
  show ?case
  proof (cases "k = k0")
    case True
    with ih none sw kd show ?thesis by simp
  next
    case False
    with ih sw kd show ?thesis by simp
  qed
qed

lemma swept_keys_iff:
  assumes "distinct (map fst ns)"
  shows "k \<in> set (swept_keys delth ns) \<longleftrightarrow> (\<exists>d. map_of ns k = Some d \<and> delth < pruned (aged d))"
proof
  assume "k \<in> set (swept_keys delth ns)"
  then obtain d where "(k, d) \<in> set ns" "delth < pruned (aged d)"
    by (auto simp: swept_keys_def)
  with assms show "\<exists>d. map_of ns k = Some d \<and> delth < pruned (aged d)" by auto
next
  assume "\<exists>d. map_of ns k = Some d \<and> delth < pruned (aged d)"
  then obtain d where "map_of ns k = Some d" "delth < pruned (aged d)" by blast
  then have "(k, d) \<in> {x \<in> set ns. case x of (k, d) \<Rightarrow> delth < pruned (aged d)}"
    by (auto dest: map_of_SomeD)
  then have "fst (k, d) \<in> fst ` {x \<in> set ns. case x of (k, d) \<Rightarrow> delth < pruned (aged d)}"
    by (rule imageI)
  then show "k \<in> set (swept_keys delth ns)"
    by (simp add: swept_keys_def)
qed

lemma swept_nodes_fst:
  "map fst (swept_nodes delth ns) = map fst (filter (\<lambda>(k, d). \<not> delth < pruned (aged d)) ns)"
  by (induction ns) (auto simp: swept_nodes_def)

lemma swept_nodes_keys: "set (map fst (swept_nodes delth ns)) \<subseteq> set (map fst ns)"
  unfolding swept_nodes_fst by auto

lemma swept_nodes_distinct: "distinct (map fst ns) \<Longrightarrow> distinct (map fst (swept_nodes delth ns))"
  unfolding swept_nodes_fst by (rule distinct_map_filter)


lemma prune_round_facts:
  assumes p: "prune fuel l pmin delth keep = Some (Inr (l', pn, dn))"
    and dl: "distinct (map fst (nodes l))"
  shows "distinct (map fst (nodes l'))"
    and "set (edges l') \<subseteq> set (edges l)"
    and "map_of (nodes l) k = None \<Longrightarrow> map_of (nodes l') k = None"
    and "map_of (nodes l') k = Some d' \<Longrightarrow> pruned d' \<le> delth \<and> (active d' \<longrightarrow> pruned d' = 0)"
    and "map_of (nodes l) k = Some d \<Longrightarrow> \<not> active d \<Longrightarrow> pruned d + 1 \<le> delth \<Longrightarrow>
           \<exists>d'. map_of (nodes l') k = Some d' \<and> \<not> active d' \<and> pruned d' = pruned d + 1"
    and "map_of (nodes l) k = Some d \<Longrightarrow> \<not> active d \<Longrightarrow> \<not> pruned d + 1 \<le> delth \<Longrightarrow>
           map_of (nodes l') k = None \<and> k \<in> set dn
           \<and> (\<forall>xy e. (xy, e) \<in> set (edges l') \<longrightarrow> fst xy \<noteq> k \<and> snd xy \<noteq> k)"
proof -
  from prune_round [OF p dl] obtain l2 where
    rel: "nodes_rel prune_rel l l2" and fr: "only_nodes_changed l l2"
    and l': "l' = l2\<lparr>nodes := swept_nodes delth (nodes l2),
                edges := filter (\<lambda>(xy, e). fst xy \<notin> set (swept_keys delth (nodes l2)) \<and>
                                           snd xy \<notin> set (swept_keys delth (nodes l2))) (edges l2)\<rparr>"
    and dn: "set dn = set (swept_keys delth (nodes l2))"
    by blast
  have d2: "distinct (map fst (nodes l2))" using nodes_rel_keys [OF rel] dl by simp
  have n': "nodes l' = swept_nodes delth (nodes l2)"
    and e': "edges l' = filter (\<lambda>(xy, e). fst xy \<notin> set (swept_keys delth (nodes l2)) \<and>
                                           snd xy \<notin> set (swept_keys delth (nodes l2))) (edges l2)"
    by (simp_all add: l')
  have e2: "edges l2 = edges l" by (rule only_nodes_changed_fields [OF fr])
  note look = map_of_swept_nodes [OF d2, of delth]
  show "distinct (map fst (nodes l'))" unfolding n' by (rule swept_nodes_distinct [OF d2])
  show "set (edges l') \<subseteq> set (edges l)" unfolding e' e2 by auto
  show "map_of (nodes l') k = None" if "map_of (nodes l) k = None"
    unfolding n' look using nodes_rel_None [OF rel that] by simp
  show "pruned d' \<le> delth \<and> (active d' \<longrightarrow> pruned d' = 0)" if "map_of (nodes l') k = Some d'"
    using that unfolding n' look by (auto simp: aged_def split: option.splits if_splits)
  {
    assume k: "map_of (nodes l) k = Some d" and na: "\<not> active d"
    from nodes_rel_Some [OF rel k] obtain d2 where
      k2: "map_of (nodes l2) k = Some d2" and r: "prune_rel d d2" by blast
    from r na have i2: "\<not> active d2" "pruned d2 = pruned d" by (auto simp: prune_rel_def)
    then have ag: "pruned (aged d2) = pruned d + 1" "\<not> active (aged d2)" by (simp_all add: aged_def)
    show "\<exists>d'. map_of (nodes l') k = Some d' \<and> \<not> active d' \<and> pruned d' = pruned d + 1"
      if "pruned d + 1 \<le> delth"
      unfolding n' look using k2 ag that by simp
    show "map_of (nodes l') k = None \<and> k \<in> set dn
           \<and> (\<forall>xy e. (xy, e) \<in> set (edges l') \<longrightarrow> fst xy \<noteq> k \<and> snd xy \<noteq> k)"
      if "\<not> pruned d + 1 \<le> delth"
    proof -
      have "k \<in> set (swept_keys delth (nodes l2))"
        unfolding swept_keys_iff [OF d2] using k2 ag that by simp
      moreover have "map_of (nodes l') k = None"
        unfolding n' look using k2 ag that by simp
      ultimately show ?thesis unfolding dn e' by auto
    qed
  }
qed

lemma prune_rounds_mono:
  assumes "prune_rounds fuel delth args l = Some (Inr l')" and "distinct (map fst (nodes l))"
  shows "distinct (map fst (nodes l')) \<and> set (edges l') \<subseteq> set (edges l)
         \<and> (\<forall>k. map_of (nodes l) k = None \<longrightarrow> map_of (nodes l') k = None)"
  using assms
proof (induction args arbitrary: l)
  case Nil
  then show ?case by simp
next
  case (Cons a args)
  from Cons.prems(1) obtain l1 pn dn where
    p: "prune fuel l (fst a) delth (snd a) = Some (Inr (l1, pn, dn))"
    and r: "prune_rounds fuel delth args l1 = Some (Inr l')"
    by (auto split: option.splits sum.splits)
  note f = prune_round_facts [OF p Cons.prems(2)]
  from Cons.IH [OF r f(1)] f(2) f(3) show ?case by blast
qed

section \<open>The inactivity counter\<close>

lemma prune_round_step:
  assumes p: "prune fuel l pmin delth keep = Some (Inr (l', pn, dn))"
    and dl: "distinct (map fst (nodes l))"
    and k: "map_of (nodes l) k = Some d"
  shows "\<exists>c act.
           (if active d then (act \<and> c = 0) \<or> (\<not> act \<and> (c = 1 \<or> c = pruned d + 1))
            else \<not> act \<and> c = pruned d + 1)
         \<and> (if c \<le> delth
            then k \<notin> set dn
                 \<and> (\<exists>d'. map_of (nodes l') k = Some d' \<and> active d' = act \<and> pruned d' = c)
            else k \<in> set dn \<and> map_of (nodes l') k = None
                 \<and> (\<forall>xy e. (xy, e) \<in> set (edges l') \<longrightarrow> fst xy \<noteq> k \<and> snd xy \<noteq> k))"
proof -
  from prune_round [OF p dl] obtain l2 where
    rel: "nodes_rel prune_rel l l2"
    and l': "l' = l2\<lparr>nodes := swept_nodes delth (nodes l2),
                edges := filter (\<lambda>(xy, e). fst xy \<notin> set (swept_keys delth (nodes l2)) \<and>
                                           snd xy \<notin> set (swept_keys delth (nodes l2))) (edges l2)\<rparr>"
    and dn: "set dn = set (swept_keys delth (nodes l2))"
    by blast
  have d2: "distinct (map fst (nodes l2))" using nodes_rel_keys [OF rel] dl by simp
  have n': "nodes l' = swept_nodes delth (nodes l2)"
    and e': "edges l' = filter (\<lambda>(xy, e). fst xy \<notin> set (swept_keys delth (nodes l2)) \<and>
                                           snd xy \<notin> set (swept_keys delth (nodes l2))) (edges l2)"
    by (simp_all add: l')
  note look = map_of_swept_nodes [OF d2, of delth]
  from nodes_rel_Some [OF rel k] obtain dm where
    km: "map_of (nodes l2) k = Some dm" and r: "prune_rel d dm" by blast
  define c where "c = pruned (aged dm)"
  define act where "act = active dm"
  have 1: "if active d then (act \<and> c = 0) \<or> (\<not> act \<and> (c = 1 \<or> c = pruned d + 1))
           else \<not> act \<and> c = pruned d + 1"
    using r by (auto simp: prune_rel_def aged_def c_def act_def)
  have ag: "active (aged dm) = act" by (simp add: aged_def act_def)
  have 2: "if c \<le> delth
           then k \<notin> set dn
                \<and> (\<exists>d'. map_of (nodes l') k = Some d' \<and> active d' = act \<and> pruned d' = c)
           else k \<in> set dn \<and> map_of (nodes l') k = None
                \<and> (\<forall>xy e. (xy, e) \<in> set (edges l') \<longrightarrow> fst xy \<noteq> k \<and> snd xy \<noteq> k)"
  proof (cases "c \<le> delth")
    case True
    have "k \<notin> set (swept_keys delth (nodes l2))"
      unfolding swept_keys_iff [OF d2] using km True by (simp add: c_def)
    moreover have "map_of (nodes l') k = Some (aged dm)"
      unfolding n' look using km True by (simp add: c_def)
    ultimately show ?thesis using True ag unfolding dn by (simp add: c_def)
  next
    case False
    have "k \<in> set (swept_keys delth (nodes l2))"
      unfolding swept_keys_iff [OF d2] using km False by (simp add: c_def)
    moreover have "map_of (nodes l') k = None"
      unfolding n' look using km False by (simp add: c_def)
    ultimately show ?thesis using False unfolding dn e' by auto
  qed
  from 1 2 show ?thesis by blast
qed

lemma prune_round_cg_edges:
  assumes p: "prune fuel l pmin delth keep = Some (Inr (l', pn, dn))"
    and dl: "distinct (map fst (nodes l))"
  shows "cg_edges l' = cg_edges l"
proof -
  from prune_round [OF p dl] obtain l2 where
    fr: "only_nodes_changed l l2"
    and l': "l' = l2\<lparr>nodes := swept_nodes delth (nodes l2),
                edges := filter (\<lambda>(xy, e). fst xy \<notin> set (swept_keys delth (nodes l2)) \<and>
                                           snd xy \<notin> set (swept_keys delth (nodes l2))) (edges l2)\<rparr>"
    by blast
  have "cg_edges l' = cg_edges l2" by (simp add: l')
  with only_nodes_changed_fields(2) [OF fr] show ?thesis by simp
qed

lemma prune_rounds_cg_edges:
  assumes "prune_rounds fuel delth args l = Some (Inr l')" and "distinct (map fst (nodes l))"
  shows "cg_edges l' = cg_edges l"
  using assms
proof (induction args arbitrary: l)
  case Nil
  then show ?case by simp
next
  case (Cons a args)
  from Cons.prems(1) obtain l1 pn dn where
    p: "prune fuel l (fst a) delth (snd a) = Some (Inr (l1, pn, dn))"
    and r: "prune_rounds fuel delth args l1 = Some (Inr l')"
    by (auto split: option.splits sum.splits)
  from Cons.IH [OF r prune_round_facts(1) [OF p Cons.prems(2)]]
    prune_round_cg_edges [OF p Cons.prems(2)]
  show ?case by simp
qed

lemma prune_rounds_append:
  "prune_rounds fuel delth (xs @ ys) l =
     (case prune_rounds fuel delth xs l of
        None \<Rightarrow> None
      | Some (Inl e) \<Rightarrow> Some (Inl e)
      | Some (Inr l1) \<Rightarrow> prune_rounds fuel delth ys l1)"
  by (induction xs arbitrary: l) (auto split: option.splits sum.splits)

lemma prune_rounds_closed:
  assumes "distinct (map fst (nodes l))"
    and "prune_rounds fuel delth args l = Some (Inr l')"
  shows "(args \<noteq> [] \<longrightarrow>
           (\<forall>k d'. map_of (nodes l') k = Some d' \<longrightarrow>
              pruned d' \<le> delth \<and> (active d' \<longrightarrow> pruned d' = 0)))
     \<and> (\<forall>k d. map_of (nodes l) k = Some d \<and> \<not> active d \<longrightarrow>
           (if pruned d + int (length args) \<le> delth
            then (\<exists>d'. map_of (nodes l') k = Some d' \<and> \<not> active d'
                       \<and> pruned d' = pruned d + int (length args))
            else args \<noteq> [] \<longrightarrow>
                   map_of (nodes l') k = None
                   \<and> (\<forall>xy e. (xy, e) \<in> set (edges l') \<longrightarrow> fst xy \<noteq> k \<and> snd xy \<noteq> k)))"
  using assms
proof (induction args arbitrary: l)
  case Nil
  then have "l' = l" by simp
  then show ?case by auto
next
  case (Cons a args)
  from Cons.prems(2) obtain l1 pn dn where
    p: "prune fuel l (fst a) delth (snd a) = Some (Inr (l1, pn, dn))"
    and r: "prune_rounds fuel delth args l1 = Some (Inr l')"
    by (auto split: option.splits sum.splits)
  note f = prune_round_facts [OF p Cons.prems(1)]
  note ih = Cons.IH [OF f(1) r]
  note mono = prune_rounds_mono [OF r f(1)]
  have A: "pruned d' \<le> delth \<and> (active d' \<longrightarrow> pruned d' = 0)"
    if "map_of (nodes l') k = Some d'" for k d'
  proof (cases "args = []")
    case True
    with r have "l' = l1" by simp
    with f(4) that show ?thesis by blast
  next
    case False
    with ih that show ?thesis by blast
  qed
  have B: "if pruned d + int (length (a # args)) \<le> delth
            then (\<exists>d'. map_of (nodes l') k = Some d' \<and> \<not> active d'
                       \<and> pruned d' = pruned d + int (length (a # args)))
            else a # args \<noteq> [] \<longrightarrow>
                   map_of (nodes l') k = None
                   \<and> (\<forall>xy e. (xy, e) \<in> set (edges l') \<longrightarrow> fst xy \<noteq> k \<and> snd xy \<noteq> k)"
    if k: "map_of (nodes l) k = Some d" and na: "\<not> active d" for k d
  proof (cases "pruned d + 1 \<le> delth")
    case True
    from f(5) [OF k na True] obtain d1 where
      d1: "map_of (nodes l1) k = Some d1" "\<not> active d1" "pruned d1 = pruned d + 1" by blast
    from ih d1 have
      "if pruned d1 + int (length args) \<le> delth
       then (\<exists>d'. map_of (nodes l') k = Some d' \<and> \<not> active d'
                  \<and> pruned d' = pruned d1 + int (length args))
       else args \<noteq> [] \<longrightarrow>
              map_of (nodes l') k = None
              \<and> (\<forall>xy e. (xy, e) \<in> set (edges l') \<longrightarrow> fst xy \<noteq> k \<and> snd xy \<noteq> k)"
      by blast
    with d1(3) True show ?thesis by (cases "args = []") (auto split: if_splits)
  next
    case False
    from f(6) [OF k na False] have
      g: "map_of (nodes l1) k = None"
         "\<forall>xy e. (xy, e) \<in> set (edges l1) \<longrightarrow> fst xy \<noteq> k \<and> snd xy \<noteq> k"
      by blast+
    from mono g have "map_of (nodes l') k = None"
      and "\<forall>xy e. (xy, e) \<in> set (edges l') \<longrightarrow> fst xy \<noteq> k \<and> snd xy \<noteq> k"
      by blast+
    moreover from False have "\<not> pruned d + int (length (a # args)) \<le> delth" by simp
    ultimately show ?thesis by simp
  qed
  have 1: "a # args \<noteq> [] \<longrightarrow>
           (\<forall>k d'. map_of (nodes l') k = Some d' \<longrightarrow>
              pruned d' \<le> delth \<and> (active d' \<longrightarrow> pruned d' = 0))"
    using A by blast
  have 2: "\<forall>k d. map_of (nodes l) k = Some d \<and> \<not> active d \<longrightarrow>
           (if pruned d + int (length (a # args)) \<le> delth
            then (\<exists>d'. map_of (nodes l') k = Some d' \<and> \<not> active d'
                       \<and> pruned d' = pruned d + int (length (a # args)))
            else a # args \<noteq> [] \<longrightarrow>
                   map_of (nodes l') k = None
                   \<and> (\<forall>xy e. (xy, e) \<in> set (edges l') \<longrightarrow> fst xy \<noteq> k \<and> snd xy \<noteq> k))"
    using B by blast
  from 1 2 show ?case by (rule conjI)
qed

lemma zero_update:
  assumes "\<forall>k \<in> K. \<exists>d. map_of (nodes s) k = Some d \<and> \<not> active d \<and> pruned d = 0"
    and "\<And>d. \<not> active d \<and> pruned d = 0 \<Longrightarrow> \<not> active (f d) \<and> pruned (f d) = 0"
  shows "\<forall>k \<in> K. \<exists>d. map_of (nodes (update_node x f s)) k = Some d \<and> \<not> active d \<and> pruned d = 0"
proof
  fix k assume "k \<in> K"
  with assms(1) obtain d where d: "map_of (nodes s) k = Some d" "\<not> active d \<and> pruned d = 0" by blast
  show "\<exists>d. map_of (nodes (update_node x f s)) k = Some d \<and> \<not> active d \<and> pruned d = 0"
  proof (cases "k = x")
    case True
    with d have "map_of (nodes (update_node x f s)) k = Some (f d)" by (simp add: map_of_map_entry)
    with assms(2) [OF d(2)] show ?thesis by simp
  next
    case False
    with d have "map_of (nodes (update_node x f s)) k = Some d" by (simp add: map_of_map_entry)
    with d(2) show ?thesis by simp
  qed
qed

lemma hide_inactive_zero:
  assumes a: "hide_inactive hn s = Inr t"
    and p: "(\<forall>k \<in> K. \<exists>d. map_of (nodes s) k = Some d \<and> \<not> active d \<and> pruned d = 0)
            \<and> (\<exists>d. map_of (nodes s) lm = Some d \<and> pruned d = 0)"
  shows "(\<forall>k \<in> K. \<exists>d. map_of (nodes t) k = Some d \<and> \<not> active d \<and> pruned d = 0)
            \<and> (\<exists>d. map_of (nodes t) lm = Some d \<and> pruned d = 0)"
proof -
  from a have t: "t = update_node hn (\<lambda>d. d\<lparr>active := False\<rparr>) s"
    by (auto simp: hide_inactive_def split: option.splits if_splits)
  have 1: "\<forall>k \<in> K. \<exists>d. map_of (nodes t) k = Some d \<and> \<not> active d \<and> pruned d = 0"
    unfolding t by (rule zero_update) (use p in auto)
  from p obtain e where "map_of (nodes s) lm = Some e" "pruned e = 0" by blast
  then have 2: "\<exists>d. map_of (nodes t) lm = Some d \<and> pruned d = 0"
    unfolding t by (auto simp: map_of_map_entry)
  from 1 2 show ?thesis by simp
qed

lemma prune_select_zero:
  assumes "prune_select pmin keep lms s tot new = Inr (t, new')"
    and "\<forall>k \<in> set new. \<exists>d. map_of (nodes s) k = Some d \<and> \<not> active d \<and> pruned d = 0"
  shows "\<forall>k \<in> set new'. \<exists>d. map_of (nodes t) k = Some d \<and> \<not> active d \<and> pruned d = 0"
  using assms
proof (induction lms arbitrary: s tot new)
  case Nil
  then show ?case by simp
next
  case (Cons lm lms)
  from Cons.prems(1) obtain ks where ks: "keep = Some ks"
    by (cases keep) auto
  show ?case
  proof (cases "lm \<in> ks")
    case True
    with Cons.prems(1) ks have "prune_select pmin keep lms s tot new = Inr (t, new')" by simp
    from Cons.IH [OF this Cons.prems(2)] show ?thesis .
  next
    case False
    with Cons.prems(1) ks obtain d where d: "map_of (nodes s) lm = Some d"
      by (auto split: option.splits)
    let ?s1 = "update_node lm (\<lambda>d. d\<lparr>pruned := 0\<rparr>) s"
    have z1: "\<forall>k \<in> set new. \<exists>d. map_of (nodes ?s1) k = Some d \<and> \<not> active d \<and> pruned d = 0"
      by (rule zero_update [OF Cons.prems(2)]) simp
    have y1: "\<exists>d. map_of (nodes ?s1) lm = Some d \<and> pruned d = 0"
      using d by (simp add: map_of_map_entry)
    show ?thesis
    proof (cases "pmin < tot + occupancy d")
      case True
      with Cons.prems(1) ks False d have "t = ?s1" and "new' = new" by simp_all
      with z1 show ?thesis by simp
    next
      case nb: False
      with Cons.prems(1) ks False d obtain hs l' where
        hs: "fold_err hide_inactive hs ?s1 = Inr l'"
        and rec: "prune_select pmin keep lms (update_node lm (\<lambda>d. d\<lparr>active := False\<rparr>) l')
                    (tot + occupancy d) (new @ [lm]) = Inr (t, new')"
        by (auto split: option.splits sum.splits)
      have i': "(\<forall>k \<in> set new. \<exists>d. map_of (nodes l') k = Some d \<and> \<not> active d \<and> pruned d = 0)
            \<and> (\<exists>d. map_of (nodes l') lm = Some d \<and> pruned d = 0)"
      proof (rule fold_err_invariant [OF hs])
        show "(\<forall>k \<in> set new. \<exists>d. map_of (nodes ?s1) k = Some d \<and> \<not> active d \<and> pruned d = 0)
            \<and> (\<exists>d. map_of (nodes ?s1) lm = Some d \<and> pruned d = 0)"
          using z1 y1 by simp
      next
        fix x u v
        assume "(\<forall>k \<in> set new. \<exists>d. map_of (nodes u) k = Some d \<and> \<not> active d \<and> pruned d = 0)
            \<and> (\<exists>d. map_of (nodes u) lm = Some d \<and> pruned d = 0)"
          and "hide_inactive x u = Inr v"
        then show "(\<forall>k \<in> set new. \<exists>d. map_of (nodes v) k = Some d \<and> \<not> active d \<and> pruned d = 0)
            \<and> (\<exists>d. map_of (nodes v) lm = Some d \<and> pruned d = 0)"
          by (rule hide_inactive_zero [rotated])
      qed
      let ?s2 = "update_node lm (\<lambda>d. d\<lparr>active := False\<rparr>) l'"
      have a: "\<forall>k \<in> set new. \<exists>d. map_of (nodes ?s2) k = Some d \<and> \<not> active d \<and> pruned d = 0"
        by (rule zero_update) (use i' in auto)
      from i' obtain e where "map_of (nodes l') lm = Some e" "pruned e = 0" by blast
      then have b: "\<exists>d. map_of (nodes ?s2) lm = Some d \<and> \<not> active d \<and> pruned d = 0"
        by (simp add: map_of_map_entry)
      from a b have "\<forall>k \<in> set (new @ [lm]). \<exists>d. map_of (nodes ?s2) k = Some d \<and> \<not> active d \<and> pruned d = 0"
        by auto
      from Cons.IH [OF rec this] show ?thesis .
    qed
  qed
qed

lemma assign_transfer_zero:
  assumes "assign_transfer fuel lms s = Some (Inr t)"
    and "\<forall>k \<in> K. \<exists>d. map_of (nodes s) k = Some d \<and> \<not> active d \<and> pruned d = 0"
  shows "\<forall>k \<in> K. \<exists>d. map_of (nodes t) k = Some d \<and> \<not> active d \<and> pruned d = 0"
  using assms
proof (induction lms arbitrary: s)
  case Nil
  then show ?case by simp
next
  case (Cons lm lms)
  from Cons.prems(1) obtain ys where
    rec: "assign_transfer fuel lms (update_node lm (\<lambda>d. d\<lparr>occtransfer := Some ys\<rparr>) s) = Some (Inr t)"
    by (auto split: option.splits sum.splits if_splits)
  have "\<forall>k \<in> K. \<exists>d. map_of (nodes (update_node lm (\<lambda>d. d\<lparr>occtransfer := Some ys\<rparr>) s)) k = Some d
          \<and> \<not> active d \<and> pruned d = 0"
    by (rule zero_update [OF Cons.prems(2)]) simp
  from Cons.IH [OF rec this] show ?case .
qed

lemma prune_round_new:
  assumes p: "prune fuel l pmin delth keep = Some (Inr (l', pn, dn))"
    and dl: "distinct (map fst (nodes l))"
  shows "\<exists>l1 new. prune_select pmin keep (sort_key (node_occupancy l) (active_local_mins l)) l 0 [] =
              Inr (l1, new)
          \<and> set new \<subseteq> set (active_local_mins l)
          \<and> (\<forall>k \<in> set new.
                k \<in> set pn
                \<and> (if 1 \<le> delth
                   then k \<notin> set dn
                        \<and> (\<exists>d'. map_of (nodes l') k = Some d' \<and> \<not> active d' \<and> pruned d' = 1)
                   else k \<in> set dn \<and> map_of (nodes l') k = None))"
proof -
  let ?lms = "sort_key (node_occupancy l) (active_local_mins l)"
  from p obtain l1 new l2 where
    sel: "prune_select pmin keep ?lms l 0 [] = Inr (l1, new)"
    and asg: "assign_transfer fuel new l1 = Some (Inr l2)"
    and sw: "fold_err (sweep_step delth) (map fst (nodes l2)) (l2, [], []) = Inr (l', pn, dn)"
    by (auto simp: prune_def split: sum.splits option.splits)
  have act: "\<forall>lm \<in> set ?lms. \<exists>d0. map_of (nodes l) lm = Some d0 \<and> active d0"
    using active_local_mins_lookup [OF dl] by simp
  have r1: "nodes_rel prune_rel l l1 \<and> only_nodes_changed l l1"
    by (rule prune_select_rel [OF sel _ _ act]) (simp_all add: nodes_rel_refl prune_rel_refl)
  have sub: "set new \<subseteq> set (active_local_mins l)" using prune_select_new [OF sel] by simp
  with act have act': "\<forall>lm \<in> set new. \<exists>d0. map_of (nodes l) lm = Some d0 \<and> active d0" by auto
  have r2: "nodes_rel prune_rel l l2 \<and> only_nodes_changed l l2"
    using assign_transfer_rel [OF asg _ _ act'] r1 by blast
  have d2: "distinct (map fst (nodes l2))"
    using nodes_rel_keys [of prune_rel l l2] r2 dl by simp
  from sweep_all [OF d2, of delth] sw have
    n': "nodes l' = swept_nodes delth (nodes l2)"
    and dn: "set dn = set (swept_keys delth (nodes l2))"
    and pn: "set pn = {k. \<exists>d. (k, d) \<in> set (nodes l2) \<and> \<not> active d \<and> pruned d = 0}"
    by auto
  have z1: "\<forall>k \<in> set new. \<exists>d. map_of (nodes l1) k = Some d \<and> \<not> active d \<and> pruned d = 0"
    by (rule prune_select_zero [OF sel]) simp
  have z2: "\<forall>k \<in> set new. \<exists>d. map_of (nodes l2) k = Some d \<and> \<not> active d \<and> pruned d = 0"
    by (rule assign_transfer_zero [OF asg z1])
  note look = map_of_swept_nodes [OF d2, of delth]
  have "k \<in> set pn
        \<and> (if 1 \<le> delth
           then k \<notin> set dn
                \<and> (\<exists>d'. map_of (nodes l') k = Some d' \<and> \<not> active d' \<and> pruned d' = 1)
           else k \<in> set dn \<and> map_of (nodes l') k = None)"
    if "k \<in> set new" for k
  proof -
    from z2 that obtain dm where km: "map_of (nodes l2) k = Some dm" and i: "\<not> active dm" "pruned dm = 0"
      by blast
    then have ag: "pruned (aged dm) = 1" "\<not> active (aged dm)" by (simp_all add: aged_def)
    from km have "(k, dm) \<in> set (nodes l2)" by (rule map_of_SomeD)
    with i have 1: "k \<in> set pn" unfolding pn by blast
    have 2: "if 1 \<le> delth
           then k \<notin> set dn
                \<and> (\<exists>d'. map_of (nodes l') k = Some d' \<and> \<not> active d' \<and> pruned d' = 1)
           else k \<in> set dn \<and> map_of (nodes l') k = None"
    proof (cases "1 \<le> delth")
      case True
      have "k \<notin> set (swept_keys delth (nodes l2))"
        unfolding swept_keys_iff [OF d2] using km ag True by simp
      moreover have "map_of (nodes l') k = Some (aged dm)"
        unfolding n' look using km ag True by simp
      ultimately show ?thesis using True ag unfolding dn by simp
    next
      case False
      have "k \<in> set (swept_keys delth (nodes l2))"
        unfolding swept_keys_iff [OF d2] using km ag False by simp
      moreover have "map_of (nodes l') k = None"
        unfolding n' look using km ag False by simp
      ultimately show ?thesis using False unfolding dn by simp
    qed
    from 1 2 show ?thesis by (rule conjI)
  qed
  with sel sub show ?thesis by blast
qed

lemma prune_rounds_step:
  assumes dl: "distinct (map fst (nodes l))"
    and run: "prune_rounds fuel delth args l = Some (Inr l')"
    and h: "args = pre @ a # post \<and> prune_rounds fuel delth pre l = Some (Inr li)"
  shows "(pre \<noteq> [] \<longrightarrow> (\<forall>k d. map_of (nodes li) k = Some d \<and> active d \<longrightarrow> pruned d = 0))
     \<and> (\<exists>li' pn dn. prune fuel li (fst a) delth (snd a) = Some (Inr (li', pn, dn))
          \<and> prune_rounds fuel delth post li' = Some (Inr l')
          \<and> (\<forall>k d. map_of (nodes li) k = Some d \<longrightarrow>
               (\<exists>c act.
                  (if active d then (act \<and> c = 0) \<or> (\<not> act \<and> (c = 1 \<or> c = pruned d + 1))
                   else \<not> act \<and> c = pruned d + 1)
                  \<and> (if c \<le> delth
                     then k \<notin> set dn
                          \<and> (\<exists>d'. map_of (nodes li') k = Some d' \<and> active d' = act \<and> pruned d' = c)
                     else k \<in> set dn \<and> map_of (nodes li') k = None
                          \<and> (\<forall>xy e. (xy, e) \<in> set (edges li') \<longrightarrow> fst xy \<noteq> k \<and> snd xy \<noteq> k))))
          \<and> (\<exists>l1 new.
                prune_select (fst a) (snd a) (sort_key (node_occupancy li) (active_local_mins li)) li 0 [] =
                  Inr (l1, new)
                \<and> set new \<subseteq> set (active_local_mins li)
                \<and> (\<forall>k \<in> set new.
                      k \<in> set pn
                      \<and> (if 1 \<le> delth
                         then k \<notin> set dn
                              \<and> (\<exists>d'. map_of (nodes li') k = Some d' \<and> \<not> active d' \<and> pruned d' = 1)
                         else k \<in> set dn \<and> map_of (nodes li') k = None))))"
proof -
  from h have pre: "prune_rounds fuel delth pre l = Some (Inr li)" by simp
  have di: "distinct (map fst (nodes li))"
    using prune_rounds_mono [OF pre dl] by blast
  from run h have "prune_rounds fuel delth (a # post) li = Some (Inr l')"
    by (simp add: prune_rounds_append)
  then obtain li' pn dn where
    p: "prune fuel li (fst a) delth (snd a) = Some (Inr (li', pn, dn))"
    and r: "prune_rounds fuel delth post li' = Some (Inr l')"
    by (auto split: option.splits sum.splits)
  have 1: "pre \<noteq> [] \<longrightarrow> (\<forall>k d. map_of (nodes li) k = Some d \<and> active d \<longrightarrow> pruned d = 0)"
    using conjunct1 [OF prune_rounds_closed [OF dl pre]] by blast
  show ?thesis
    apply (rule conjI)
     apply (rule 1)
    apply (rule exI [of _ li'], rule exI [of _ pn], rule exI [of _ dn])
    apply (intro conjI allI impI)
       apply (rule p)
      apply (rule r)
     apply (erule prune_round_step [OF p di])
    apply (rule prune_round_new [OF p di])
    done
qed

lemmas prune_eval = prune_def active_local_mins_def set_truthy_def node_occupancy_def
        update_node_def nbr_scan_step_def sweep_step_def set_add_def Let_def hide_inactive_def

lemma idle_round_keep:
  assumes "nodes l = [(a, da), (h, dh)]" and "a \<noteq> h" and "active da"
    and "\<not> set_truthy (lminreps da)" and "0 < occupancy da" and "\<not> active dh"
    and "pruned dh + 1 \<le> 3"
  shows "\<exists>pn. prune (Suc k) l 0 3 (Some {}) =
           Some (Inr (l\<lparr>nodes := [(a, da\<lparr>pruned := 0\<rparr>), (h, dh\<lparr>pruned := pruned dh + 1\<rparr>)]\<rparr>, pn, []))"
  using assms by (simp add: prune_eval)

lemma idle_round_delete:
  assumes "nodes l = [(a, da), (h, dh)]" and "a \<noteq> h" and "active da"
    and "\<not> set_truthy (lminreps da)" and "0 < occupancy da" and "\<not> active dh"
    and "\<not> pruned dh + 1 \<le> 3"
  shows "\<exists>pn. prune (Suc k) l 0 3 (Some {}) =
           Some (Inr (l\<lparr>edges := filter (\<lambda>(xy, e). h \<noteq> fst xy \<and> h \<noteq> snd xy) (edges l),
                         nodes := [(a, da\<lparr>pruned := 0\<rparr>)]\<rparr>, pn, [h]))"
  using assms by (simp add: prune_eval)

lemma idle_rounds:
  assumes "nodes l = [(a, da), (h, dh)]" and "a \<noteq> h" and "active da"
    and "\<not> set_truthy (lminreps da)" and "0 < occupancy da" and "\<not> active dh"
    and "pruned dh + int (length args) \<le> 4" and "\<forall>x \<in> set args. x = (0, Some {})"
  shows "\<exists>l'. prune_rounds (Suc k) 3 args l = Some (Inr l')"
  using assms
proof (induction args arbitrary: l da dh)
  case Nil
  then show ?case by simp
next
  case (Cons x args)
  from Cons.prems have x: "x = (0, Some {})" by auto
  show ?case
  proof (cases "pruned dh + 1 \<le> 3")
    case True
    from idle_round_keep [OF Cons.prems(1-6) True, of k] obtain pn where
      p: "prune (Suc k) l 0 3 (Some {}) =
           Some (Inr (l\<lparr>nodes := [(a, da\<lparr>pruned := 0\<rparr>), (h, dh\<lparr>pruned := pruned dh + 1\<rparr>)]\<rparr>, pn, []))"
      by blast
    have "\<exists>l'. prune_rounds (Suc k) 3 args
           (l\<lparr>nodes := [(a, da\<lparr>pruned := 0\<rparr>), (h, dh\<lparr>pruned := pruned dh + 1\<rparr>)]\<rparr>) = Some (Inr l')"
      by (rule Cons.IH [where da = "da\<lparr>pruned := 0\<rparr>" and dh = "dh\<lparr>pruned := pruned dh + 1\<rparr>"])
         (use Cons.prems in auto)
    with p x show ?thesis by simp
  next
    case False
    with Cons.prems(7) have e: "args = []" by (cases args) auto
    from idle_round_delete [OF Cons.prems(1-6) False, of k] obtain pn where
      p: "prune (Suc k) l 0 3 (Some {}) =
           Some (Inr (l\<lparr>edges := filter (\<lambda>(xy, e). h \<noteq> fst xy \<and> h \<noteq> snd xy) (edges l),
                         nodes := [(a, da\<lparr>pruned := 0\<rparr>)]\<rparr>, pn, [h]))"
      by blast
    with x e show ?thesis by simp
  qed
qed

lemma scenario_B_first_round:
  "prune (Suc 0) scenario_B (3 / 10) 3 (Some {}) =
     Some (Inr (scenario_B\<lparr>nodes :=
        [(''(...)'', \<lparr>structure = Some ''(...)'', occupancy = 7 / 10, identity = ''s0'',
                      energy = Some 120, active = True, pruned = 0, lminreps = Some [],
                      hiddennodes = Some [], occtransfer = None\<rparr>),
         (''.....'', \<lparr>structure = Some ''.....'', occupancy = 3 / 10, identity = ''s1'',
                      energy = Some 0, active = False, pruned = 1, lminreps = Some [],
                      hiddennodes = Some [], occtransfer = Some [''(...)'']\<rparr>)]\<rparr>, [''.....''], []))"
  by (simp add: prune_eval scenario_B_def)

lemma scenario_B_four_rounds:
  "prune_rounds 1 3 [(3 / 10, Some {}), (0, Some {}), (0, Some {}), (0, Some {})] scenario_B =
     Some (Inr (scenario_B\<lparr>nodes :=
        [(''(...)'', \<lparr>structure = Some ''(...)'', occupancy = 7 / 10, identity = ''s0'',
                      energy = Some 120, active = True, pruned = 0, lminreps = Some [],
                      hiddennodes = Some [], occtransfer = None\<rparr>)],
        edges := []\<rparr>))"
proof -
  define da where "da = \<lparr>structure = Some ''(...)'', occupancy = 7 / 10, identity = ''s0'',
                      energy = Some 120, active = True, pruned = 0, lminreps = Some [],
                      hiddennodes = Some [], occtransfer = None\<rparr>"
  define db :: node where "db = \<lparr>structure = Some ''.....'', occupancy = 3 / 10, identity = ''s1'',
                      energy = Some 0, active = False, pruned = 1, lminreps = Some [],
                      hiddennodes = Some [], occtransfer = Some [''(...)'']\<rparr>"
  have ne: "''(...)'' \<noteq> ''.....''" by simp
  have fa: "active da" "\<not> set_truthy (lminreps da)" "0 < occupancy da" "da\<lparr>pruned := 0\<rparr> = da"
    and fb: "\<not> active db" "pruned db = 1"
    by (simp_all add: da_def db_def set_truthy_def)
  define l1 where "l1 = scenario_B\<lparr>nodes := [(''(...)'', da), (''.....'', db)]\<rparr>"
  define l2 where "l2 = l1\<lparr>nodes := [(''(...)'', da), (''.....'', db\<lparr>pruned := 2\<rparr>)]\<rparr>"
  define l3 where "l3 = l2\<lparr>nodes := [(''(...)'', da), (''.....'', db\<lparr>pruned := 3\<rparr>)]\<rparr>"
  define l4 where "l4 = l3\<lparr>edges := filter (\<lambda>(xy, e). ''.....'' \<noteq> fst xy \<and> ''.....'' \<noteq> snd xy) (edges l3),
                         nodes := [(''(...)'', da)]\<rparr>"
  have r1: "prune (Suc 0) scenario_B (3 / 10) 3 (Some {}) = Some (Inr (l1, [''.....''], []))"
    using scenario_B_first_round by (simp add: l1_def da_def db_def)
  have n1: "nodes l1 = [(''(...)'', da), (''.....'', db)]" by (simp add: l1_def)
  have "pruned db + 1 \<le> 3" by (simp add: fb)
  from idle_round_keep [OF n1 ne fa(1-3) fb(1) this, of 0] obtain pn2 where
    r2: "prune (Suc 0) l1 0 3 (Some {}) = Some (Inr (l2, pn2, []))"
    by (auto simp: l2_def fa fb)
  have n2: "nodes l2 = [(''(...)'', da), (''.....'', db\<lparr>pruned := 2\<rparr>)]" by (simp add: l2_def)
  have "\<not> active (db\<lparr>pruned := 2\<rparr>)" "pruned (db\<lparr>pruned := 2\<rparr>) + 1 \<le> 3" by (simp_all add: fb)
  from idle_round_keep [OF n2 ne fa(1-3) this, of 0] obtain pn3 where
    r3: "prune (Suc 0) l2 0 3 (Some {}) = Some (Inr (l3, pn3, []))"
    by (auto simp: l3_def fa)
  have n3: "nodes l3 = [(''(...)'', da), (''.....'', db\<lparr>pruned := 3\<rparr>)]" by (simp add: l3_def)
  have "\<not> active (db\<lparr>pruned := 3\<rparr>)" "\<not> pruned (db\<lparr>pruned := 3\<rparr>) + 1 \<le> 3" by (simp_all add: fb)
  from idle_round_delete [OF n3 ne fa(1-3) this, of 0] obtain pn4 where
    r4: "prune (Suc 0) l3 0 3 (Some {}) = Some (Inr (l4, pn4, [''.....'']))"
    by (auto simp: l4_def fa)
  have "prune_rounds 1 3 [(3 / 10, Some {}), (0, Some {}), (0, Some {}), (0, Some {})] scenario_B =
          Some (Inr l4)"
    using r1 r2 r3 r4 by simp
  moreover have "l4 = scenario_B\<lparr>nodes := [(''(...)'', da)], edges := []\<rparr>"
    by (simp add: l4_def l3_def l2_def l1_def scenario_B_def)
  ultimately show ?thesis by (simp add: da_def)
qed

text \<open>
  Claim C5, as stated, fails for the coarse edges. With \<^verbatim>\<open>delth = 3\<close>, the minimum
  \<open>''.....''\<close> of \<open>scenario_B\<close> is deactivated in the first round, stays inactive and is
  deleted in the fourth round together with the two fine-grained edges that touch it; the
  two coarse edges that touch it are still in \<^verbatim>\<open>cg_edges\<close> after that round.
\<close>

theorem prune_coarse_edges_counterexample:
  "\<exists>l4. prune_rounds 1 3 [(3 / 10, Some {}), (0, Some {}), (0, Some {}), (0, Some {})] scenario_B =
          Some (Inr l4)
     \<and> map fst (nodes l4) = [''(...)''] \<and> edges l4 = []
     \<and> map fst (cg_edges l4) = [(''(...)'', ''.....''), (''.....'', ''(...)'')]
     \<and> has_cg_edge l4 ''(...)'' ''.....'' \<and> has_cg_edge l4 ''.....'' ''(...)''"
  unfolding scenario_B_four_rounds by (simp add: scenario_B_def has_cg_edge_def)

text \<open>
  Claim C5, amended. Consider any run of successive \<^verbatim>\<open>prune\<close> calls with the same
  \<^verbatim>\<open>delth\<close> that all return, on a landscape with unique node keys.

  \<^item> After at least one call every remaining node has a counter of at most
    \<^verbatim>\<open>delth\<close>, and an active node has counter 0.
  \<^item> A node that is inactive at the start, with counter \<open>p\<close>, is still present and
    inactive with counter \<open>p + n\<close> after \<open>n\<close> calls as long as \<open>p + n \<le> delth\<close>; once
    \<open>p + n\<close> exceeds \<^verbatim>\<open>delth\<close> the node is gone and no fine-grained edge touches it.
  \<^item> A key that is absent at the start is absent at the end: a deleted node never comes
    back.
  \<^item> No fine-grained edge is added, so an edge that went with its node stays away. The
    coarse edges are left as they were, also those that touch a deleted node; only the
    fine-grained edges are cleaned.
  \<^item> In every single round of the run, whatever came before it, the call returns the new
    landscape and the sets \<^verbatim>\<open>pn\<close> and \<^verbatim>\<open>dn\<close>, and each node \<open>k\<close> present before
    the round gets a new counter \<open>c\<close> and a new activity flag: a node that was inactive
    stays inactive with \<open>c\<close> one more than before; a node that was active either stays
    active with \<open>c = 0\<close>, or is deactivated in this round with \<open>c = 1\<close> or \<open>c\<close> one more
    than before (the two agree for a node whose counter was 0, as it is for every active
    node once a round has been run). The node is kept with that counter and flag exactly
    when \<open>c \<le> delth\<close>; otherwise it is deleted in this very round, reported in
    \<^verbatim>\<open>dn\<close>, and no fine-grained edge touches it.
  \<^item> In every single round, each minimum that the first loop deactivates (the list
    \<^verbatim>\<open>new_inactive_lms\<close>, which holds active local minima of the round's start) ends
    the round with counter exactly 1, whatever its counter was before: it is reported in
    \<^verbatim>\<open>pn\<close> and is kept, inactive, when \<open>1 \<le> delth\<close>, and deleted otherwise.
\<close>

theorem pruned_counter:
  assumes "distinct (map fst (nodes l))"
    and "prune_rounds fuel delth args l = Some (Inr l')"
  shows "(args \<noteq> [] \<longrightarrow>
           (\<forall>k d'. map_of (nodes l') k = Some d' \<longrightarrow>
              pruned d' \<le> delth \<and> (active d' \<longrightarrow> pruned d' = 0)))
     \<and> (\<forall>k d. map_of (nodes l) k = Some d \<and> \<not> active d \<longrightarrow>
           (if pruned d + int (length args) \<le> delth
            then (\<exists>d'. map_of (nodes l') k = Some d' \<and> \<not> active d'
                       \<and> pruned d' = pruned d + int (length args))
            else args \<noteq> [] \<longrightarrow>
                   map_of (nodes l') k = None
                   \<and> (\<forall>xy e. (xy, e) \<in> set (edges l') \<longrightarrow> fst xy \<noteq> k \<and> snd xy \<noteq> k)))
     \<and> (\<forall>k. map_of (nodes l) k = None \<longrightarrow> map_of (nodes l') k = None)
     \<and> set (edges l') \<subseteq> set (edges l)
     \<and> cg_edges l' = cg_edges l
     \<and> (\<forall>pre a post li.
           args = pre @ a # post \<and> prune_rounds fuel delth pre l = Some (Inr li) \<longrightarrow>
           (pre \<noteq> [] \<longrightarrow> (\<forall>k d. map_of (nodes li) k = Some d \<and> active d \<longrightarrow> pruned d = 0))
           \<and> (\<exists>li' pn dn. prune fuel li (fst a) delth (snd a) = Some (Inr (li', pn, dn))
                \<and> prune_rounds fuel delth post li' = Some (Inr l')
                \<and> (\<forall>k d. map_of (nodes li) k = Some d \<longrightarrow>
                     (\<exists>c act.
                        (if active d then (act \<and> c = 0) \<or> (\<not> act \<and> (c = 1 \<or> c = pruned d + 1))
                         else \<not> act \<and> c = pruned d + 1)
                        \<and> (if c \<le> delth
                           then k \<notin> set dn
                                \<and> (\<exists>d'. map_of (nodes li') k = Some d' \<and> active d' = act \<and> pruned d' = c)
                           else k \<in> set dn \<and> map_of (nodes li') k = None
                                \<and> (\<forall>xy e. (xy, e) \<in> set (edges li') \<longrightarrow> fst xy \<noteq> k \<and> snd xy \<noteq> k))))
                \<and> (\<exists>l1 new.
                      prune_select (fst a) (snd a) (sort_key (node_occupancy li) (active_local_mins li)) li 0 [] =
                        Inr (l1, new)
                      \<and> set new \<subseteq> set (active_local_mins li)
                      \<and> (\<forall>k \<in> set new.
                            k \<in> set pn
                            \<and> (if 1 \<le> delth
                               then k \<notin> set dn
                                    \<and> (\<exists>d'. map_of (nodes li') k = Some d' \<and> \<not> active d' \<and> pruned d' = 1)
                               else k \<in> set dn \<and> map_of (nodes li') k = None)))))"
proof -
  note c = prune_rounds_closed [OF assms]
  note m = prune_rounds_mono [OF assms(2,1)]
  show ?thesis
    apply (intro conjI)
         apply (rule conjunct1 [OF c])
        apply (rule conjunct2 [OF c])
       apply (rule conjunct2 [OF conjunct2 [OF m]])
      apply (rule conjunct1 [OF conjunct2 [OF m]])
     apply (rule prune_rounds_cg_edges [OF assms(2,1)])
    apply (intro allI impI)
    apply (erule prune_rounds_step [OF assms])
    done
qed

text \<open>
  With \<^verbatim>\<open>delth = 3\<close>, the hidden node of \<open>scenario_D\<close>, inactive with counter 0, is
  present with counter 3 after three rounds and absent, with its fine-grained edges, after
  the fourth. The minimum \<open>''.....''\<close> of \<open>scenario_B\<close>, active with counter 0, is
  deactivated in the first round of four and is kept with counter 1; three rounds later
  it is gone, and the coarse edges are those of the start.
\<close>

theorem pruned_counter_witness:
  "distinct (map fst (nodes scenario_D))
   \<and> (\<exists>d. map_of (nodes scenario_D) ''.....'' = Some d \<and> \<not> active d \<and> pruned d = 0)
   \<and> (\<exists>l3 d3. prune_rounds 1 3 [(0, Some {}), (0, Some {}), (0, Some {})] scenario_D = Some (Inr l3)
         \<and> map_of (nodes l3) ''.....'' = Some d3 \<and> \<not> active d3 \<and> pruned d3 = 3)
   \<and> (\<exists>l4. prune_rounds 1 3 [(0, Some {}), (0, Some {}), (0, Some {}), (0, Some {})] scenario_D = Some (Inr l4)
         \<and> map_of (nodes l4) ''.....'' = None
         \<and> list_all (\<lambda>(xy, e). fst xy \<noteq> ''.....'' \<and> snd xy \<noteq> ''.....'') (edges l4))
   \<and> distinct (map fst (nodes scenario_B))
   \<and> (\<exists>d. map_of (nodes scenario_B) ''.....'' = Some d \<and> active d \<and> pruned d = 0)
   \<and> (\<exists>l4 l1 pn dn d1.
         prune_rounds 1 3 [(3 / 10, Some {}), (0, Some {}), (0, Some {}), (0, Some {})] scenario_B =
           Some (Inr l4)
         \<and> cg_edges l4 = cg_edges scenario_B
         \<and> prune 1 scenario_B (3 / 10) 3 (Some {}) = Some (Inr (l1, pn, dn))
         \<and> ''.....'' \<notin> set dn \<and> map_of (nodes l1) ''.....'' = Some d1
         \<and> \<not> active d1 \<and> pruned d1 = 1
         \<and> map_of (nodes l4) ''.....'' = None)"
proof -
  have dist: "distinct (map fst (nodes scenario_D))" by (simp add: scenario_D_def)
  define da where "da = snd (nodes scenario_D ! 0)"
  define dh where "dh = snd (nodes scenario_D ! 1)"
  have n: "nodes scenario_D = [(''(...)'', da), (''.....'', dh)]"
    and ne: "''(...)'' \<noteq> ''.....''"
    and f: "active da" "\<not> set_truthy (lminreps da)" "0 < occupancy da" "\<not> active dh"
    and p0: "pruned dh = 0"
    by (simp_all add: scenario_D_def da_def dh_def set_truthy_def)
  have d: "map_of (nodes scenario_D) ''.....'' = Some dh" using n ne by simp
  have "\<exists>l'. prune_rounds (Suc 0) 3 [(0, Some {}), (0, Some {}), (0, Some {})] scenario_D = Some (Inr l')"
    by (rule idle_rounds [OF n ne f]) (simp_all add: p0)
  then obtain l3 where
    r3: "prune_rounds 1 3 [(0, Some {}), (0, Some {}), (0, Some {})] scenario_D = Some (Inr l3)"
    by auto
  have "\<exists>l'. prune_rounds (Suc 0) 3 [(0, Some {}), (0, Some {}), (0, Some {}), (0, Some {})] scenario_D = Some (Inr l')"
    by (rule idle_rounds [OF n ne f]) (simp_all add: p0)
  then obtain l4 where
    r4: "prune_rounds 1 3 [(0, Some {}), (0, Some {}), (0, Some {}), (0, Some {})] scenario_D = Some (Inr l4)"
    by auto
  note t3 = conjunct1 [OF conjunct2 [OF pruned_counter [OF dist r3]], rule_format, of "''.....''" dh]
  note t4 = conjunct1 [OF conjunct2 [OF pruned_counter [OF dist r4]], rule_format, of "''.....''" dh]
  from t3 d f(4) p0 have
    c3: "\<exists>d3. map_of (nodes l3) ''.....'' = Some d3 \<and> \<not> active d3 \<and> pruned d3 = 3"
    by simp
  from t4 d f(4) p0 have
    "map_of (nodes l4) ''.....'' = None
     \<and> (\<forall>xy e. (xy, e) \<in> set (edges l4) \<longrightarrow> fst xy \<noteq> ''.....'' \<and> snd xy \<noteq> ''.....'')"
    by simp
  then have c4: "map_of (nodes l4) ''.....'' = None
     \<and> list_all (\<lambda>(xy, e). fst xy \<noteq> ''.....'' \<and> snd xy \<noteq> ''.....'') (edges l4)"
    unfolding list_all_iff by fast
  have c0: "\<exists>d. map_of (nodes scenario_D) ''.....'' = Some d \<and> \<not> active d \<and> pruned d = 0"
    using d f(4) p0 by blast
  have D: "(\<exists>l3 d3. prune_rounds 1 3 [(0, Some {}), (0, Some {}), (0, Some {})] scenario_D = Some (Inr l3)
         \<and> map_of (nodes l3) ''.....'' = Some d3 \<and> \<not> active d3 \<and> pruned d3 = 3)
   \<and> (\<exists>l4. prune_rounds 1 3 [(0, Some {}), (0, Some {}), (0, Some {}), (0, Some {})] scenario_D = Some (Inr l4)
         \<and> map_of (nodes l4) ''.....'' = None
         \<and> list_all (\<lambda>(xy, e). fst xy \<noteq> ''.....'' \<and> snd xy \<noteq> ''.....'') (edges l4))"
    using c3 c4 r3 r4 by blast
  have distB: "distinct (map fst (nodes scenario_B))" by (simp add: scenario_B_def)
  define db where "db = snd (nodes scenario_B ! 1)"
  have kB: "map_of (nodes scenario_B) ''.....'' = Some db"
    and fB: "active db" "pruned db = 0"
    by (simp_all add: scenario_B_def db_def)
  have b0: "\<exists>d. map_of (nodes scenario_B) ''.....'' = Some d \<and> active d \<and> pruned d = 0"
    using kB fB by blast
  have "\<exists>m. prune_rounds 1 3 [(3 / 10, Some {}), (0, Some {}), (0, Some {}), (0, Some {})] scenario_B =
          Some (Inr m)"
    unfolding scenario_B_four_rounds by simp
  then obtain m4 where
    rB: "prune_rounds 1 3 [(3 / 10, Some {}), (0, Some {}), (0, Some {}), (0, Some {})] scenario_B =
          Some (Inr m4)"
    by (elim exE)
  note tB = pruned_counter [OF distB rB]
  have cg: "cg_edges m4 = cg_edges scenario_B"
    by (rule conjunct1 [OF conjunct2 [OF conjunct2 [OF conjunct2 [OF conjunct2 [OF tB]]]]])
  note sB = conjunct2 [OF conjunct2 [OF conjunct2 [OF conjunct2 [OF conjunct2 [OF tB]]]], rule_format,
              of "[]" "(3 / 10, Some {})" "[(0, Some {}), (0, Some {}), (0, Some {})]" scenario_B]
  have "\<exists>li' pn dn. prune 1 scenario_B (3 / 10) 3 (Some {}) = Some (Inr (li', pn, dn))
          \<and> prune_rounds 1 3 [(0, Some {}), (0, Some {}), (0, Some {})] li' = Some (Inr m4)
          \<and> (\<exists>c act. ((act \<and> c = 0) \<or> (\<not> act \<and> c = 1))
                \<and> c \<le> 3 \<and> ''.....'' \<notin> set dn
                \<and> (\<exists>d'. map_of (nodes li') ''.....'' = Some d' \<and> active d' = act \<and> pruned d' = c))"
  proof -
    have "[(3 / 10, Some {}), (0, Some {}), (0, Some {}), (0, Some {})] =
            [] @ (3 / 10, Some {}) # [(0, Some {}), (0, Some {}), (0, Some {})]
          \<and> prune_rounds 1 3 [] scenario_B = Some (Inr scenario_B)"
      by simp
    from conjunct2 [OF sB [OF this]] obtain li' pn dn where
      p: "prune 1 scenario_B (fst (3 / 10 :: real, Some ({} :: string set))) 3
            (snd (3 / 10 :: real, Some ({} :: string set))) = Some (Inr (li', pn, dn))"
      and r: "prune_rounds 1 3 [(0, Some {}), (0, Some {}), (0, Some {})] li' = Some (Inr m4)"
      and q: "\<forall>k d. map_of (nodes scenario_B) k = Some d \<longrightarrow>
               (\<exists>c act.
                  (if active d then (act \<and> c = 0) \<or> (\<not> act \<and> (c = 1 \<or> c = pruned d + 1))
                   else \<not> act \<and> c = pruned d + 1)
                  \<and> (if c \<le> 3
                     then k \<notin> set dn
                          \<and> (\<exists>d'. map_of (nodes li') k = Some d' \<and> active d' = act \<and> pruned d' = c)
                     else k \<in> set dn \<and> map_of (nodes li') k = None
                          \<and> (\<forall>xy e. (xy, e) \<in> set (edges li') \<longrightarrow> fst xy \<noteq> k \<and> snd xy \<noteq> k)))"
      by (elim exE conjE)
    from q [rule_format, OF kB] fB obtain c act where
      1: "(act \<and> c = 0) \<or> (\<not> act \<and> c = 1)"
      and 2: "if c \<le> 3
              then ''.....'' \<notin> set dn
                   \<and> (\<exists>d'. map_of (nodes li') ''.....'' = Some d' \<and> active d' = act \<and> pruned d' = c)
              else ''.....'' \<in> set dn \<and> map_of (nodes li') ''.....'' = None
                   \<and> (\<forall>xy e. (xy, e) \<in> set (edges li') \<longrightarrow> fst xy \<noteq> ''.....'' \<and> snd xy \<noteq> ''.....'')"
      by auto
    from 1 have 3: "c \<le> 3" by auto
    with 2 have 4: "''.....'' \<notin> set dn"
      and 5: "\<exists>d'. map_of (nodes li') ''.....'' = Some d' \<and> active d' = act \<and> pruned d' = c"
      by simp_all
    from p have p': "prune 1 scenario_B (3 / 10) 3 (Some {}) = Some (Inr (li', pn, dn))" by simp
    from p' r 1 3 4 5 show ?thesis by blast
  qed
  then obtain l1 pn dn c act d1 where
    p: "prune 1 scenario_B (3 / 10) 3 (Some {}) = Some (Inr (l1, pn, dn))"
    and r: "prune_rounds 1 3 [(0, Some {}), (0, Some {}), (0, Some {})] l1 = Some (Inr m4)"
    and ca: "(act \<and> c = 0) \<or> (\<not> act \<and> c = 1)"
    and dn: "''.....'' \<notin> set dn"
    and k1: "map_of (nodes l1) ''.....'' = Some d1" and a1: "active d1 = act" and c1: "pruned d1 = c"
    by (elim exE conjE)
  from p scenario_B_first_round have "\<not> active (the (map_of (nodes l1) ''.....''))"
    and dist1: "distinct (map fst (nodes l1))"
    by auto
  with k1 have i1: "\<not> active d1" by simp
  with ca a1 c1 have one: "pruned d1 = 1" by auto
  note t1 = conjunct1 [OF conjunct2 [OF pruned_counter [OF dist1 r]], rule_format, of "''.....''" d1]
  from t1 k1 i1 one have gone: "map_of (nodes m4) ''.....'' = None" by simp
  have B: "\<exists>l4 l1 pn dn d1.
         prune_rounds 1 3 [(3 / 10, Some {}), (0, Some {}), (0, Some {}), (0, Some {})] scenario_B =
           Some (Inr l4)
         \<and> cg_edges l4 = cg_edges scenario_B
         \<and> prune 1 scenario_B (3 / 10) 3 (Some {}) = Some (Inr (l1, pn, dn))
         \<and> ''.....'' \<notin> set dn \<and> map_of (nodes l1) ''.....'' = Some d1
         \<and> \<not> active d1 \<and> pruned d1 = 1
         \<and> map_of (nodes l4) ''.....'' = None"
    using rB cg p dn k1 i1 one gone by blast
  from dist c0 D distB b0 B show ?thesis by (intro conjI) blast+
qed

section \<open>Exclusivity of representatives and hidden nodes\<close>

lemma ebind_Inr: "ebind r f = Inr v \<longleftrightarrow> (\<exists>x. r = Inr x \<and> f x = Inr v)"
  by (cases r) (auto simp: ebind_def)

lemma ebindE:
  assumes "ebind r f = Inr v"
  obtains x where "r = Inr x" and "f x = Inr v"
  using assms by (auto simp: ebind_Inr)

text \<open>
  The successive results of the \<^verbatim>\<open>else\<close> branch of \<^verbatim>\<open>expand\<close>, and the
  principle that a property of the landscape kept by adding a fresh active node, by
  reactivating a node and by adding an edge is kept by \<^verbatim>\<open>expand\<close>.
\<close>

lemma expand_grow_steps:
  assumes "expand_grow cb l seq future mfess pr = Inr (l', nn, on, rep)"
  shows "\<exists>s1 s2 gn s3 edata fl s4 l5.
      merge_node cb mfess None (l, [], []) = Inr s1
    \<and> fold_err (\<lambda>fns. fold_err (\<lambda>fn. merge_node cb (fn @ future) None) fns)
               (map snd (find_fraying_neighbors cb seq (map (take (length seq)) (active_local_mins l)) (mfree l))) s1 = Inr s2
    \<and> fold_err (\<lambda>(ss, en). merge_node cb (ss @ future) None) (gn :: (string \<times> int) list) s2 = Inr s3
    \<and> fold_err (merge_flooded cb) fl s3 = Inr s4
    \<and> fold_err (\<lambda>(xy, se) l'. addedge l' (fst xy) (snd xy) None (Some se)) edata (fst s4) = Inr l5
    \<and> Inr (l5, fst (snd s4), snd (snd s4), if pr then Some (timing cb) else None) =
        (Inr (l', nn, on, rep) :: error + (landscape \<times> string list \<times> string list \<times> (real \<times> real \<times> real \<times> real) option))"
  using assms unfolding expand_grow_def Let_def
  apply -
  apply (erule ebindE)
  apply (erule ebindE)
  apply (split if_split_asm)
   apply simp
  apply (erule ebindE)
  apply (erule ebindE)
  apply (erule ebindE)
  apply (erule ebindE)
  apply (intro exI conjI)
       apply assumption
      apply assumption
     apply assumption
    apply assumption
   apply assumption
  apply assumption
  done

lemma merge_node_invariant:
  assumes "merge_node cb key en s = Inr s'"
    and "P (fst s)"
    and add: "\<And>s key en s'. P s \<Longrightarrow> addnode cb s key (Some key) 0 None en True 0 None None None = Inr s' \<Longrightarrow> P s'"
    and act: "\<And>s key d. P s \<Longrightarrow> map_of (nodes s) key = Some d \<Longrightarrow> \<not> active d \<Longrightarrow>
                P (update_node key (\<lambda>d. d\<lparr>active := True\<rparr>) s)"
  shows "P (fst s')"
proof -
  obtain l nn on where s: "s = (l, nn, on)" by (cases s)
  show ?thesis
  proof (cases "map_of (nodes l) key")
    case None
    with assms(1) s obtain l' where "addnode cb l key (Some key) 0 None en True 0 None None None = Inr l'"
      and "s' = (l', set_add key nn, on)"
      by (auto simp: merge_node_def split: sum.splits)
    with add [of l key en l'] assms(2) s show ?thesis by simp
  next
    case (Some d)
    show ?thesis
    proof (cases "active d")
      case True
      with assms(1) s Some have "s' = s" by (simp add: merge_node_def)
      with assms(2) show ?thesis by simp
    next
      case False
      with assms(1) s Some have "s' = (update_node key (\<lambda>d. d\<lparr>active := True\<rparr>) l, nn, set_add key on)"
        by (simp add: merge_node_def)
      with act [of l key d] assms(2) s Some False show ?thesis by simp
    qed
  qed
qed

lemma merge_flooded_invariant:
  assumes "merge_flooded cb ne s = Inr s'"
    and "P (fst s)"
    and add: "\<And>s key en s'. P s \<Longrightarrow> addnode cb s key (Some key) 0 None en True 0 None None None = Inr s' \<Longrightarrow> P s'"
    and act: "\<And>s key d. P s \<Longrightarrow> map_of (nodes s) key = Some d \<Longrightarrow> \<not> active d \<Longrightarrow>
                P (update_node key (\<lambda>d. d\<lparr>active := True\<rparr>) s)"
  shows "P (fst s')"
proof -
  from assms(1) have "merge_node cb (fst ne) (Some (snd ne)) s = Inr s'"
    by (auto simp: merge_flooded_def split: sum.splits option.splits if_splits)
  then show ?thesis
    by (rule merge_node_invariant [where P = P, OF _ assms(2)]) (erule (1) add, erule (2) act)
qed

lemma expand_grow_invariant:
  assumes ex: "expand_grow cb l seq future mfess pr = Inr (l', nn, on, rep)"
    and "P l"
    and add: "\<And>s key en s'. P s \<Longrightarrow> addnode cb s key (Some key) 0 None en True 0 None None None = Inr s' \<Longrightarrow> P s'"
    and act: "\<And>s key d. P s \<Longrightarrow> map_of (nodes s) key = Some d \<Longrightarrow> \<not> active d \<Longrightarrow>
                P (update_node key (\<lambda>d. d\<lparr>active := True\<rparr>) s)"
    and edg: "\<And>s n1 n2 w se s'. P s \<Longrightarrow> addedge s n1 n2 w se = Inr s' \<Longrightarrow> P s'"
  shows "P l'"
proof -
  let ?Q = "\<lambda>s :: landscape \<times> string list \<times> string list. P (fst s)"
  have mn: "?Q t" if "merge_node cb key en s = Inr t" "?Q s" for key en s t
    by (rule merge_node_invariant [where P = P, OF that]) (erule (1) add, erule (2) act)
  from expand_grow_steps [OF ex] obtain s1 s2 gn s3 edata fl s4 where
    1: "merge_node cb mfess None (l, [], []) = Inr s1"
    and 2: "fold_err (\<lambda>fns. fold_err (\<lambda>fn. merge_node cb (fn @ future) None) fns)
               (map snd (find_fraying_neighbors cb seq (map (take (length seq)) (active_local_mins l)) (mfree l))) s1 = Inr s2"
    and 3: "fold_err (\<lambda>(ss, en). merge_node cb (ss @ future) None) (gn :: (string \<times> int) list) s2 = Inr s3"
    and 4: "fold_err (merge_flooded cb) fl s3 = Inr s4"
    and 5: "fold_err (\<lambda>(xy, se) l'. addedge l' (fst xy) (snd xy) None (Some se)) edata (fst s4) = Inr l'"
    by auto
  have q1: "?Q s1" using mn [OF 1] assms(2) by simp
  have q2: "?Q s2"
  proof (rule fold_err_invariant [OF 2, where P = ?Q])
    show "?Q s1" by (rule q1)
  next
    fix fns s t
    assume qs: "?Q s" and f: "fold_err (\<lambda>fn. merge_node cb (fn @ future) None) fns s = Inr t"
    show "?Q t"
      by (rule fold_err_invariant [OF f, where P = ?Q]) (use qs mn in blast)+
  qed
  have q3: "?Q s3"
  proof (rule fold_err_invariant [OF 3, where P = ?Q])
    show "?Q s2" by (rule q2)
  next
    fix x :: "string \<times> int" and s t
    assume qs: "?Q s" and f: "(case x of (ss, en) \<Rightarrow> merge_node cb (ss @ future) None) s = Inr t"
    then show "?Q t" using mn by (cases x) auto
  qed
  have q4: "?Q s4"
  proof (rule fold_err_invariant [OF 4, where P = ?Q])
    show "?Q s3" by (rule q3)
  next
    fix x s t
    assume qs: "?Q s" and f: "merge_flooded cb x s = Inr t"
    show "?Q t"
      by (rule merge_flooded_invariant [where P = P, OF f qs]) (erule (1) add, erule (2) act)
  qed
  show "P l'"
  proof (rule fold_err_invariant [OF 5, where P = P])
    show "P (fst s4)" by (rule q4)
  next
    fix x s t
    assume "P s" and "(case x of (xy, se) \<Rightarrow> \<lambda>l'. addedge l' (fst xy) (snd xy) None (Some se)) s = Inr t"
    then show "P t" using edg by (cases x) auto
  qed
qed

lemma expand_invariant:
  assumes ex: "expand cb l pr = Inr (l', nn, on, rep)"
    and "P l"
    and tl: "\<And>s n. P s \<Longrightarrow> P (s\<lparr>transcript_length := n\<rparr>)"
    and boot: "\<And>s key s'. P s \<Longrightarrow> nodes s = [] \<Longrightarrow>
                 addnode cb s key (Some key) 1 None None True 0 None None None = Inr s' \<Longrightarrow> P s'"
    and add: "\<And>s key en s'. P s \<Longrightarrow> addnode cb s key (Some key) 0 None en True 0 None None None = Inr s' \<Longrightarrow> P s'"
    and act: "\<And>s key d. P s \<Longrightarrow> map_of (nodes s) key = Some d \<Longrightarrow> \<not> active d \<Longrightarrow>
                P (update_node key (\<lambda>d. d\<lparr>active := True\<rparr>) s)"
    and edg: "\<And>s n1 n2 w se s'. P s \<Longrightarrow> addedge s n1 n2 w se = Inr s' \<Longrightarrow> P s'"
  shows "P l'"
proof -
  let ?n = "if length (sequence l) < transcript_length l + 1 then length (sequence l)
            else transcript_length l + 1"
  let ?l = "l\<lparr>transcript_length := ?n\<rparr>"
  have p: "P ?l" using assms(2) by (rule tl)
  show ?thesis
  proof (cases "nodes l = []")
    case True
    with ex obtain key where "addnode cb ?l key (Some key) 1 None None True 0 None None None = Inr l'"
      unfolding expand_def Let_def by (auto split: sum.splits)
    from boot [OF p _ this] True show ?thesis by simp
  next
    case False
    with ex obtain seq future mfess where "expand_grow cb ?l seq future mfess pr = Inr (l', nn, on, rep)"
      unfolding expand_def Let_def by auto
    then show ?thesis
      by (rule expand_grow_invariant [where P = P, OF _ p])
         (erule (1) add, erule (2) act, erule (1) edg)
  qed
qed

lemma map_entry_keys [simp]: "map fst (AList.map_entry k f xs) = map fst xs"
  by (induction xs) auto

lemma list_all_map_entry:
  "list_all P xs \<Longrightarrow> (\<And>d. P (k, d) \<Longrightarrow> P (k, f d)) \<Longrightarrow> list_all P (AList.map_entry k f xs)"
  by (induction xs) auto

lemma unique_keys_update [simp]: "unique_keys (update_node k f l) = unique_keys l"
  by (simp add: unique_keys_def)

lemma addnode_nodes:
  assumes "addnode cb s key st occ ident en act pr lm hn ot = Inr s'"
  shows "map_of (nodes s) key = None"
    and "\<exists>d. nodes s' = nodes s @ [(key, d)] \<and> occupancy d = occ \<and> active d = act \<and> pruned d = pr
              \<and> lminreps d = lm \<and> hiddennodes d = hn \<and> occtransfer d = ot"
    and "edges s' = edges s" and "cg_edges s' = cg_edges s"
  using assms by (auto simp: addnode_def Let_def split: if_splits)

lemma addedge_nodes: "addedge s n1 n2 w se = Inr s' \<Longrightarrow> nodes s' = nodes s"
  by (auto simp: addedge_def Let_def split: if_splits)

lemma expand_unique_keys:
  assumes "expand cb l pr = Inr (l', nn, on, rep)" and "unique_keys l"
  shows "unique_keys l'"
proof (rule expand_invariant [OF assms(1), where P = unique_keys])
  show "unique_keys l" by (rule assms(2))
next
  fix s n assume "unique_keys s" then show "unique_keys (s\<lparr>transcript_length := n\<rparr>)"
    by (simp add: unique_keys_def)
next
  fix s key s'
  assume "unique_keys s" and "addnode cb s key (Some key) 1 None None True 0 None None None = Inr s'"
  then show "unique_keys s'"
    using addnode_nodes(1,2) [of cb s key "Some key" 1 None None True 0 None None None s']
    by (auto simp: unique_keys_def map_of_eq_None_iff)
next
  fix s key en s'
  assume "unique_keys s" and "addnode cb s key (Some key) 0 None en True 0 None None None = Inr s'"
  then show "unique_keys s'"
    using addnode_nodes(1,2) [of cb s key "Some key" 0 None en True 0 None None None s']
    by (auto simp: unique_keys_def map_of_eq_None_iff)
next
  fix s key d
  assume "unique_keys s"
  then show "unique_keys (update_node key (\<lambda>d. d\<lparr>active := True\<rparr>) s)" by simp
next
  fix s n1 n2 w se s'
  assume "unique_keys s" and "addedge s n1 n2 w se = Inr s'"
  then show "unique_keys s'" using addedge_nodes [of s n1 n2 w se s'] by (simp add: unique_keys_def)
qed

lemma expand_exclusive:
  assumes "expand cb l pr = Inr (l', nn, on, rep)" and "exclusive l"
  shows "exclusive l'"
proof (rule expand_invariant [OF assms(1), where P = exclusive])
  show "exclusive l" by (rule assms(2))
next
  fix s n assume "exclusive s" then show "exclusive (s\<lparr>transcript_length := n\<rparr>)"
    by (simp add: exclusive_def)
next
  fix s key s'
  assume "exclusive s" and "addnode cb s key (Some key) 1 None None True 0 None None None = Inr s'"
  then show "exclusive s'"
    using addnode_nodes(2) [of cb s key "Some key" 1 None None True 0 None None None s']
    by (auto simp: exclusive_def set_truthy_def)
next
  fix s key en s'
  assume "exclusive s" and "addnode cb s key (Some key) 0 None en True 0 None None None = Inr s'"
  then show "exclusive s'"
    using addnode_nodes(2) [of cb s key "Some key" 0 None en True 0 None None None s']
    by (auto simp: exclusive_def set_truthy_def)
next
  fix s key d
  assume "exclusive s"
  then show "exclusive (update_node key (\<lambda>d. d\<lparr>active := True\<rparr>) s)"
    unfolding exclusive_def nodes_update_node by (rule list_all_map_entry) simp
next
  fix s n1 n2 w se s'
  assume "exclusive s" and "addedge s n1 n2 w se = Inr s'"
  then show "exclusive s'" using addedge_nodes [of s n1 n2 w se s'] by (simp add: exclusive_def)
qed

lemma all_nodes_update:
  assumes "all_nodes N s"
    and "\<And>d. map_of (nodes s) kk = Some d \<Longrightarrow> N kk d \<Longrightarrow> N kk (f d)"
  shows "all_nodes N (update_node kk f s)"
  using assms unfolding all_nodes_def nodes_update_node map_of_map_entry
  by (auto split: option.splits if_splits)


lemma all_nodes_list:
  "unique_keys l \<Longrightarrow> all_nodes N l \<longleftrightarrow> list_all (\<lambda>(k, d). N k d) (nodes l)"
  unfolding all_nodes_def unique_keys_def list_all_iff by auto

lemma occ_rel_refl: "occ_rel d d" by (simp add: occ_rel_def)
lemma sets_rel_refl: "sets_rel d d" by (simp add: sets_rel_def)
lemma move_rel_refl: "move_rel d d" by (simp add: move_rel_def)

lemma occ_rel_step: "occ_rel d0 d \<Longrightarrow> occ_rel d0 (d\<lparr>occupancy := x\<rparr>)"
  unfolding occ_rel_def by (cases d0, cases d) simp

lemma sets_rel_step:
  "sets_rel d0 d \<Longrightarrow> sets_rel d0 (d\<lparr>lminreps := x\<rparr>)"
  "sets_rel d0 d \<Longrightarrow> sets_rel d0 (d\<lparr>hiddennodes := y\<rparr>)"
  unfolding sets_rel_def by (cases d0, cases d, simp)+

lemma move_rel_step:
  "move_rel d0 d \<Longrightarrow> move_rel d0 (d\<lparr>occupancy := x\<rparr>)"
  "move_rel d0 d \<Longrightarrow> move_rel d0 (d\<lparr>occupancy := x, active := a\<rparr>)"
  unfolding move_rel_def by (cases d0, cases d, simp)+

lemma transfer_step_occ:
  "transfer_step n len tn s = Inr t \<Longrightarrow> nodes_rel occ_rel l0 s \<Longrightarrow> nodes_rel occ_rel l0 t"
  by (auto simp: transfer_step_def split: option.splits if_splits
           intro!: nodes_rel_update occ_rel_step)

lemma reset_step_occ:
  assumes "reset_step n s = Inr t"
  shows "nodes_rel occ_rel (update_node n (\<lambda>d. d\<lparr>lminreps := Some [], hiddennodes := Some []\<rparr>) s) t"
proof -
  let ?s1 = "update_node n (\<lambda>d. d\<lparr>lminreps := Some [], hiddennodes := Some []\<rparr>) s"
  have r: "nodes_rel occ_rel ?s1 ?s1" by (rule nodes_rel_refl) (rule occ_rel_refl)
  show ?thesis
  proof (cases "t = ?s1")
    case True
    with r show ?thesis by simp
  next
    case False
    with assms obtain ts l' where
      f: "fold_err (transfer_step n (length ts)) ts ?s1 = Inr l'"
      and t: "t = update_node n (\<lambda>d. d\<lparr>occupancy := 0\<rparr>) l'"
      by (auto simp: reset_step_def Let_def split: option.splits if_splits sum.splits)
    have "nodes_rel occ_rel ?s1 l'"
      by (rule fold_err_invariant [OF f, where P = "nodes_rel occ_rel ?s1"])
         (auto intro: r transfer_step_occ)
    then show ?thesis unfolding t by (auto intro!: nodes_rel_update occ_rel_step)
  qed
qed

lemma fold_err_establish:
  assumes "fold_err f ks s = Inr t" and "k \<in> set ks" and "I s"
    and inv: "\<And>x s t. I s \<Longrightarrow> f x s = Inr t \<Longrightarrow> I t"
    and pres: "\<And>x s t. I s \<Longrightarrow> f x s = Inr t \<Longrightarrow> Q s \<Longrightarrow> Q t"
    and est: "\<And>s t. I s \<Longrightarrow> f k s = Inr t \<Longrightarrow> Q t"
  shows "Q t"
  using assms(1-3)
proof (induction ks arbitrary: s)
  case Nil
  then show ?case by simp
next
  case (Cons x xs)
  from Cons.prems(1) obtain s1 where s1: "f x s = Inr s1" "fold_err f xs s1 = Inr t"
    by (auto split: sum.splits)
  have i1: "I s1" by (rule inv [OF Cons.prems(3) s1(1)])
  show ?case
  proof (cases "k \<in> set xs")
    case True
    from Cons.IH [OF s1(2) True i1] show ?thesis .
  next
    case False
    with Cons.prems(2) have "x = k" by simp
    with s1(1) Cons.prems(3) have q1: "Q s1" using est by blast
    have "I t \<and> Q t"
      by (rule fold_err_invariant [OF s1(2), where P = "\<lambda>s. I s \<and> Q s"])
         (use i1 q1 inv pres in blast)+
    then show ?thesis by simp
  qed
qed

lemma reset_step_fresh_pres:
  assumes "reset_step n s = Inr t" and "\<forall>d. map_of (nodes s) k = Some d \<longrightarrow> fresh_sets k d"
  shows "\<forall>d. map_of (nodes t) k = Some d \<longrightarrow> fresh_sets k d"
proof (intro allI impI)
  fix d' assume t: "map_of (nodes t) k = Some d'"
  let ?s1 = "update_node n (\<lambda>d. d\<lparr>lminreps := Some [], hiddennodes := Some []\<rparr>) s"
  from nodes_rel_Some_rev [OF reset_step_occ [OF assms(1)] t] obtain d1 where
    d1: "map_of (nodes ?s1) k = Some d1" "occ_rel d1 d'" by blast
  from d1(1) assms(2) have "fresh_sets k d1"
    by (auto simp: map_of_map_entry fresh_sets_def split: option.splits if_splits)
  with d1(2) show "fresh_sets k d'"
    unfolding occ_rel_def fresh_sets_def by (metis node.select_convs(7,8) node.surjective node.update_convs(2))
qed

lemma reset_step_fresh_est:
  assumes "reset_step k s = Inr t"
  shows "\<forall>d. map_of (nodes t) k = Some d \<longrightarrow> fresh_sets k d"
proof (intro allI impI)
  fix d' assume t: "map_of (nodes t) k = Some d'"
  let ?s1 = "update_node k (\<lambda>d. d\<lparr>lminreps := Some [], hiddennodes := Some []\<rparr>) s"
  from nodes_rel_Some_rev [OF reset_step_occ [OF assms(1)] t] obtain d1 where
    d1: "map_of (nodes ?s1) k = Some d1" "occ_rel d1 d'" by blast
  from d1(1) have "fresh_sets k d1"
    by (auto simp: map_of_map_entry fresh_sets_def split: option.splits if_splits)
  with d1(2) show "fresh_sets k d'"
    unfolding occ_rel_def fresh_sets_def by (metis node.select_convs(7,8) node.surjective node.update_convs(2))
qed

lemma get_coarse_network_steps:
  assumes "get_coarse_network cb l = Inr (l', n, m)"
  shows "\<exists>l1 edata cge l2.
      fold_err reset_step (map fst (nodes l)) l = Inr l1
    \<and> filter_err (active_edge l1) (edges l1) = Inr edata
    \<and> fold_err (cg_edge_step l1
              (fst (top_down_coarse_graining cb (filter (\<lambda>(n, d). active d) (nodes l1)) edata (minh l1))))
              (fst (snd (top_down_coarse_graining cb (filter (\<lambda>(n, d). active d) (nodes l1)) edata (minh l1))))
              [] = Inr cge
    \<and> fold_err mapping_step
              (snd (snd (top_down_coarse_graining cb (filter (\<lambda>(n, d). active d) (nodes l1)) edata (minh l1))))
              (l1\<lparr>cg_edges := cge\<rparr>) = Inr l2
    \<and> fold_err (move_step (last_key (nodes l))) (hidden_nodes l2) l2 = Inr l'"
  using assms
  by (auto simp: get_coarse_network_def ebind_def Let_def split: sum.splits if_splits)

lemma reset_fold_fresh:
  assumes "fold_err reset_step (map fst (nodes l)) l = Inr l1"
  shows "all_nodes fresh_sets l1" and "map fst (nodes l1) = map fst (nodes l)"
proof -
  have rel: "nodes_rel (\<lambda>d d'. True) l s \<Longrightarrow> reset_step x s = Inr t \<Longrightarrow> nodes_rel (\<lambda>d d'. True) l t"
    for x s t
  proof -
    assume a: "nodes_rel (\<lambda>d d'. True) l s" and b: "reset_step x s = Inr t"
    have "map fst (nodes t) = map fst (nodes s)"
      using nodes_rel_keys [OF reset_step_occ [OF b]] by simp
    with a show ?thesis
      unfolding nodes_rel_def list_all2_conv_all_nth
      by (metis length_map nth_map)
  qed
  have "nodes_rel (\<lambda>d d'. True) l l1"
    by (rule fold_err_invariant [OF assms, where P = "nodes_rel (\<lambda>d d'. True) l"])
       (auto intro: rel nodes_rel_refl)
  then show keys: "map fst (nodes l1) = map fst (nodes l)" by (rule nodes_rel_keys)
  show "all_nodes fresh_sets l1"
    unfolding all_nodes_def
  proof (intro allI impI)
    fix k d assume kd: "map_of (nodes l1) k = Some d"
    then have "k \<in> set (map fst (nodes l1))" by (metis map_of_SomeD fst_conv image_eqI set_map)
    with keys have mem: "k \<in> set (map fst (nodes l))" by simp
    have "\<forall>d. map_of (nodes l1) k = Some d \<longrightarrow> fresh_sets k d"
      by (rule fold_err_establish [OF assms mem, where I = "\<lambda>s. True"
            and Q = "\<lambda>s. \<forall>d. map_of (nodes s) k = Some d \<longrightarrow> fresh_sets k d"])
         (auto intro: reset_step_fresh_pres [rule_format] reset_step_fresh_est [rule_format])
    with kd show "fresh_sets k d" by blast
  qed
qed

lemma sets_rel_active: "sets_rel d d' \<Longrightarrow> active d' = active d"
  unfolding sets_rel_def by (metis node.select_convs(5) node.surjective node.update_convs(7,8))

lemma hide_step_inv:
  assumes "hide_step lmin hn s = Inr t"
    and "nodes_rel sets_rel l0 s \<and> all_nodes (reps_ok m A) s \<and> all_nodes (hidden_ok m) s"
    and "lmin \<in> A" and "(lmin, hidden) \<in> set m" and "hn \<in> set hidden"
  shows "nodes_rel sets_rel l0 t \<and> all_nodes (reps_ok m A) t \<and> all_nodes (hidden_ok m) t"
proof -
  from assms(1) obtain d reps where
    d: "map_of (nodes s) hn = Some d" "lminreps d = Some reps"
    and t: "t = update_node hn (\<lambda>d. d\<lparr>lminreps := Some (set_add lmin reps)\<rparr>) s"
    by (auto simp: hide_step_def split: option.splits if_splits)
  have 1: "nodes_rel sets_rel l0 t" unfolding t
    using assms(2) by (auto intro!: nodes_rel_update sets_rel_step)
  have 2: "all_nodes (reps_ok m A) t" unfolding t
  proof (rule all_nodes_update)
    show "all_nodes (reps_ok m A) s" using assms(2) by simp
  next
    fix d' assume "map_of (nodes s) hn = Some d'" and r: "reps_ok m A hn d'"
    with d have "d' = d" by simp
    with r d(2) assms(3-5) show "reps_ok m A hn (d'\<lparr>lminreps := Some (set_add lmin reps)\<rparr>)"
      by (auto simp: reps_ok_def set_add_def)
  qed
  have 3: "all_nodes (hidden_ok m) t" unfolding t
    using assms(2) by (auto intro!: all_nodes_update simp: hidden_ok_def)
  from 1 2 3 show ?thesis by simp
qed

lemma mapping_step_inv:
  assumes "mapping_step lh s = Inr t"
    and inv: "nodes_rel sets_rel l0 s \<and> all_nodes (reps_ok m (active_keys l0)) s \<and> all_nodes (hidden_ok m) s"
    and "lh \<in> set m"
  shows "nodes_rel sets_rel l0 t \<and> all_nodes (reps_ok m (active_keys l0)) t \<and> all_nodes (hidden_ok m) t"
proof -
  from assms(1) obtain d l' where
    d: "map_of (nodes s) (fst lh) = Some d" "active d"
    and f: "fold_err (hide_step (fst lh)) (snd lh) s = Inr l'"
    and t: "t = update_node (fst lh) (\<lambda>d. d\<lparr>hiddennodes := Some (snd lh)\<rparr>) l'"
    by (auto simp: mapping_step_def split: option.splits if_splits sum.splits)
  from inv have rel: "nodes_rel sets_rel l0 s" by simp
  from nodes_rel_Some_rev [OF rel d(1)] obtain d0 where
    "map_of (nodes l0) (fst lh) = Some d0" "sets_rel d0 d" by blast
  with d(2) sets_rel_active have act: "fst lh \<in> active_keys l0"
    by (auto simp: active_keys_def)
  have mem: "(fst lh, snd lh) \<in> set m" using assms(3) by simp
  have i': "nodes_rel sets_rel l0 l' \<and> all_nodes (reps_ok m (active_keys l0)) l' \<and> all_nodes (hidden_ok m) l'"
  proof (rule fold_err_invariant [OF f])
    show "nodes_rel sets_rel l0 s \<and> all_nodes (reps_ok m (active_keys l0)) s \<and> all_nodes (hidden_ok m) s"
      by (rule inv)
  next
    fix x u v
    assume "x \<in> set (snd lh)"
      and "nodes_rel sets_rel l0 u \<and> all_nodes (reps_ok m (active_keys l0)) u \<and> all_nodes (hidden_ok m) u"
      and "hide_step (fst lh) x u = Inr v"
    then show "nodes_rel sets_rel l0 v \<and> all_nodes (reps_ok m (active_keys l0)) v \<and> all_nodes (hidden_ok m) v"
      using hide_step_inv [of "fst lh" x u v l0 m "active_keys l0" "snd lh"] act mem by blast
  qed
  have 1: "nodes_rel sets_rel l0 t" unfolding t
    using i' by (auto intro!: nodes_rel_update sets_rel_step)
  have 2: "all_nodes (reps_ok m (active_keys l0)) t" unfolding t
    using i' by (auto intro!: all_nodes_update simp: reps_ok_def)
  have 3: "all_nodes (hidden_ok m) t" unfolding t
    using i' mem by (auto intro!: all_nodes_update simp: hidden_ok_def)
  from 1 2 3 show ?thesis by simp
qed

lemma mapping_fold_inv:
  assumes "fold_err mapping_step m l0 = Inr l2" and "all_nodes fresh_sets l0"
  shows "nodes_rel sets_rel l0 l2 \<and> all_nodes (reps_ok m (active_keys l0)) l2 \<and> all_nodes (hidden_ok m) l2"
proof (rule fold_err_invariant [OF assms(1)])
  show "nodes_rel sets_rel l0 l0 \<and> all_nodes (reps_ok m (active_keys l0)) l0 \<and> all_nodes (hidden_ok m) l0"
    using assms(2)
    by (auto simp: all_nodes_def fresh_sets_def reps_ok_def hidden_ok_def
             intro: nodes_rel_refl sets_rel_refl)
next
  fix x s t
  assume "x \<in> set m"
    and "nodes_rel sets_rel l0 s \<and> all_nodes (reps_ok m (active_keys l0)) s \<and> all_nodes (hidden_ok m) s"
    and "mapping_step x s = Inr t"
  then show "nodes_rel sets_rel l0 t \<and> all_nodes (reps_ok m (active_keys l0)) t \<and> all_nodes (hidden_ok m) t"
    using mapping_step_inv by blast
qed

lemma partition_exclusive:
  assumes "partition_mapping m" and "reps_ok m A k d" and "hidden_ok m k d"
  shows "\<not> (set_truthy (lminreps d) \<and> set_truthy (hiddennodes d))"
proof
  assume a: "set_truthy (lminreps d) \<and> set_truthy (hiddennodes d)"
  from assms(2) a obtain r hidden where r: "(r, hidden) \<in> set m" "k \<in> set hidden"
    by (cases "lminreps d") (auto simp: reps_ok_def set_truthy_def neq_Nil_conv)
  from assms(3) a obtain hidden' where h: "(k, hidden') \<in> set m"
    by (auto simp: hidden_ok_def set_truthy_def)
  from assms(1) r h show False
    unfolding partition_mapping_def list_all_iff by fastforce
qed

lemma nodes_rel_list_all:
  assumes "nodes_rel R l l'" and "list_all P (nodes l)"
    and "\<And>k d d'. P (k, d) \<Longrightarrow> R d d' \<Longrightarrow> P (k, d')"
  shows "list_all P (nodes l')"
proof -
  have "list_all2 (\<lambda>kd kd'. fst kd = fst kd' \<and> R (snd kd) (snd kd')) xs ys \<Longrightarrow> list_all P xs \<Longrightarrow> list_all P ys"
    for xs ys
    by (induction xs ys rule: list_all2_induct) (auto intro: assms(3))
  with assms(1,2) show ?thesis unfolding nodes_rel_def by blast
qed

lemma nodes_rel_unique_keys: "nodes_rel R l l' \<Longrightarrow> unique_keys l' = unique_keys l"
  unfolding unique_keys_def by (simp add: nodes_rel_keys)

lemma lrep_step_move:
  "lrep_step hn len lrep s = Inr t \<Longrightarrow> nodes_rel move_rel l0 s \<Longrightarrow> nodes_rel move_rel l0 t"
  by (auto simp: lrep_step_def split: option.splits if_splits
           intro!: nodes_rel_update move_rel_step)

lemma move_step_move:
  assumes "move_step stale hn s = Inr t" and "nodes_rel move_rel l0 s"
  shows "nodes_rel move_rel l0 t"
proof -
  from assms(1) obtain l' where
    f: "l' = s \<or> (\<exists>reps. fold_err (lrep_step hn (length reps)) reps s = Inr l')"
    and t: "t = update_node hn (\<lambda>d. d\<lparr>occupancy := 0, active := False\<rparr>) l'"
    by (auto simp: move_step_def split: option.splits if_splits sum.splits)
  have "nodes_rel move_rel l0 l'"
  proof (rule disjE [OF f])
    assume "l' = s" with assms(2) show ?thesis by simp
  next
    assume "\<exists>reps. fold_err (lrep_step hn (length reps)) reps s = Inr l'"
    then obtain reps where r: "fold_err (lrep_step hn (length reps)) reps s = Inr l'" by blast
    show ?thesis
      by (rule fold_err_invariant [OF r, where P = "nodes_rel move_rel l0"])
         (auto intro: assms(2) lrep_step_move)
  qed
  then show ?thesis unfolding t by (auto intro!: nodes_rel_update move_rel_step)
qed

lemma move_rel_sets: "move_rel d d' \<Longrightarrow> lminreps d' = lminreps d \<and> hiddennodes d' = hiddennodes d"
  unfolding move_rel_def by (metis node.select_convs(7,8) node.surjective node.update_convs(2,5))

lemma get_coarse_network_exclusive:
  assumes g: "get_coarse_network cb l = Inr (l', n, m)"
    and u: "unique_keys l" and c: "coarse_graining_partitions cb"
  shows "exclusive l' \<and> unique_keys l'"
proof -
  from get_coarse_network_steps [OF g] obtain l1 edata cge l2 where
    r: "fold_err reset_step (map fst (nodes l)) l = Inr l1"
    and mp: "fold_err mapping_step
              (snd (snd (top_down_coarse_graining cb (filter (\<lambda>(n, d). active d) (nodes l1)) edata (minh l1))))
              (l1\<lparr>cg_edges := cge\<rparr>) = Inr l2"
    and mv: "fold_err (move_step (last_key (nodes l))) (hidden_nodes l2) l2 = Inr l'"
    by blast
  let ?m = "snd (snd (top_down_coarse_graining cb (filter (\<lambda>(n, d). active d) (nodes l1)) edata (minh l1)))"
  have pm: "partition_mapping ?m" using c unfolding coarse_graining_partitions_def by blast
  note a = reset_fold_fresh [OF r]
  have f1: "all_nodes fresh_sets (l1\<lparr>cg_edges := cge\<rparr>)" using a(1) by (simp add: all_nodes_def)
  note d = mapping_fold_inv [OF mp f1]
  have k2: "map fst (nodes l2) = map fst (nodes l)"
    using nodes_rel_keys [of sets_rel "l1\<lparr>cg_edges := cge\<rparr>" l2] d a(2) by simp
  have e2: "all_nodes (\<lambda>k d. \<not> (set_truthy (lminreps d) \<and> set_truthy (hiddennodes d))) l2"
    unfolding all_nodes_def
  proof (intro allI impI)
    fix k dd assume kd: "map_of (nodes l2) k = Some dd"
    from d kd have "reps_ok ?m (active_keys (l1\<lparr>cg_edges := cge\<rparr>)) k dd" and "hidden_ok ?m k dd"
      unfolding all_nodes_def by blast+
    with pm show "\<not> (set_truthy (lminreps dd) \<and> set_truthy (hiddennodes dd))"
      by (rule partition_exclusive)
  qed
  have mr: "nodes_rel move_rel l2 l'"
    by (rule fold_err_invariant [OF mv, where P = "nodes_rel move_rel l2"])
       (auto intro: move_step_move nodes_rel_refl move_rel_refl)
  have u2: "unique_keys l2" using k2 u by (simp add: unique_keys_def)
  have u': "unique_keys l'" using nodes_rel_unique_keys [OF mr] u2 by simp
  have "list_all (\<lambda>(k, d). \<not> (set_truthy (lminreps d) \<and> set_truthy (hiddennodes d))) (nodes l2)"
    using e2 all_nodes_list [OF u2] by simp
  then have "exclusive l'" unfolding exclusive_def
    by (rule nodes_rel_list_all [OF mr]) (auto dest: move_rel_sets)
  with u' show ?thesis by simp
qed

lemma swept_nodes_list_all:
  "list_all P ns \<Longrightarrow> (\<And>k d. P (k, d) \<Longrightarrow> P (k, aged d)) \<Longrightarrow> list_all P (swept_nodes delth ns)"
  unfolding swept_nodes_def list_all_iff by auto

lemma prune_exclusive:
  assumes p: "prune fuel l pmin delth keep = Some (Inr (l', pn, dn))"
    and u: "unique_keys l" and e: "exclusive l"
  shows "exclusive l' \<and> unique_keys l'"
proof -
  from u have dl: "distinct (map fst (nodes l))" by (simp add: unique_keys_def)
  from prune_round [OF p dl] obtain l2 where
    rel: "nodes_rel prune_rel l l2"
    and l': "l' = l2\<lparr>nodes := swept_nodes delth (nodes l2),
                edges := filter (\<lambda>(xy, e). fst xy \<notin> set (swept_keys delth (nodes l2)) \<and>
                                           snd xy \<notin> set (swept_keys delth (nodes l2))) (edges l2)\<rparr>"
    by blast
  have "list_all (\<lambda>(k, d). \<not> (set_truthy (lminreps d) \<and> set_truthy (hiddennodes d))) (nodes l2)"
    by (rule nodes_rel_list_all [OF rel e [unfolded exclusive_def]]) (auto simp: prune_rel_def)
  then have "list_all (\<lambda>(k, d). \<not> (set_truthy (lminreps d) \<and> set_truthy (hiddennodes d)))
               (swept_nodes delth (nodes l2))"
    by (rule swept_nodes_list_all) (auto simp: aged_def)
  then have "exclusive l'" by (simp add: exclusive_def l')
  moreover have "unique_keys l'"
    using prune_round_facts(1) [OF p dl] by (simp add: unique_keys_def)
  ultimately show ?thesis by simp
qed

lemma set_occupancies_rel:
  "set_occupancies l snodes pt = Inr l' \<Longrightarrow> nodes_rel occ_rel l0 l \<Longrightarrow> nodes_rel occ_rel l0 l'"
proof (induction l snodes pt rule: set_occupancies.induct)
  case (1 l pt)
  then show ?case by simp
next
  case (2 l n ns)
  then show ?case by simp
next
  case (3 l n ns p pt)
  from "3.prems"(1) have
    "set_occupancies (update_node n (\<lambda>d. d\<lparr>occupancy := p\<rparr>) l) ns pt = Inr l'"
    by (auto split: if_splits)
  moreover have "map_of (nodes l) n \<noteq> None" using "3.prems"(1) by (auto split: if_splits)
  moreover have "nodes_rel occ_rel l0 (update_node n (\<lambda>d. d\<lparr>occupancy := p\<rparr>) l)"
    using "3.prems"(2) by (auto intro!: nodes_rel_update occ_rel_step)
  ultimately show ?case using "3.IH" by blast
qed

lemma occ_rel_sets: "occ_rel d d' \<Longrightarrow> lminreps d' = lminreps d \<and> hiddennodes d' = hiddennodes d"
  unfolding occ_rel_def by (metis node.select_convs(7,8) node.surjective node.update_convs(2))

lemma apply_op_exclusive:
  assumes "apply_op cb fuel x l = Some (Inr l')"
    and "coarse_graining_partitions cb" and "unique_keys l" and "exclusive l"
  shows "exclusive l' \<and> unique_keys l'"
proof (cases x)
  case (Expand pr)
  with assms(1) obtain nn on rep where "expand cb l pr = Inr (l', nn, on, rep)"
    by (auto split: sum.splits)
  with assms(3,4) show ?thesis using expand_exclusive expand_unique_keys by blast
next
  case CoarseGrain
  with assms(1) obtain n m where "get_coarse_network cb l = Inr (l', n, m)"
    by (auto split: sum.splits)
  with assms(2,3) show ?thesis using get_coarse_network_exclusive by blast
next
  case (SetOccupancies snodes pt)
  with assms(1) have "set_occupancies l snodes pt = Inr l'" by simp
  then have r: "nodes_rel occ_rel l l'"
    by (rule set_occupancies_rel) (auto intro: nodes_rel_refl occ_rel_refl)
  have "exclusive l'" unfolding exclusive_def
    by (rule nodes_rel_list_all [OF r assms(4) [unfolded exclusive_def]]) (auto dest: occ_rel_sets)
  with nodes_rel_unique_keys [OF r] assms(3) show ?thesis by simp
next
  case (Prune pmin delth keep)
  with assms(1) obtain pn dn where "prune fuel l pmin delth keep = Some (Inr (l', pn, dn))"
    by (auto split: option.splits sum.splits)
  with assms(3,4) show ?thesis using prune_exclusive by blast
qed

text \<open>
  Claim C6. Take a landscape with unique keys in which no node has both a non-empty
  \<^verbatim>\<open>lminreps\<close> and a non-empty \<^verbatim>\<open>hiddennodes\<close> (the empty landscape of
  \<^verbatim>\<open>__init__\<close> is one), and a coarse-graining collaborator that partitions the
  active nodes. After every operation of every returning sequence of \<^verbatim>\<open>expand\<close>,
  \<^verbatim>\<open>get_coarse_network\<close>, \<^verbatim>\<open>set_occupancies\<close> and \<^verbatim>\<open>prune\<close> calls, in
  any order, no node has both sets non-empty.
\<close>

theorem exclusivity:
  assumes "coarse_graining_partitions cb" and "unique_keys l" and "exclusive l"
    and "run_trace cb fuel ops l = Some (Inr states)"
  shows "\<forall>s \<in> set states. exclusive s"
  using assms(2-4)
proof (induction ops arbitrary: l states)
  case Nil
  then show ?case by simp
next
  case (Cons x xs)
  from Cons.prems(3) obtain l1 ls where
    a: "apply_op cb fuel x l = Some (Inr l1)"
    and r: "run_trace cb fuel xs l1 = Some (Inr ls)"
    and s: "states = l1 # ls"
    by (auto split: option.splits sum.splits)
  from apply_op_exclusive [OF a assms(1) Cons.prems(1,2)] have e: "exclusive l1" "unique_keys l1"
    by simp_all
  from Cons.IH [OF e(2) e(1) r] e(1) s show ?case by simp
qed

lemmas expand_eval = expand_def expand_grow_def ebind_def addnode_def addedge_def merge_node_def
  merge_flooded_def seed_edge_def transcript_def dict_keys_def py_round_def set_add_def
  active_local_mins_def set_truthy_def update_node_def Let_def init_landscape_def

lemmas coarse_eval = get_coarse_network_def ebind_def reset_step_def transfer_step_def
  active_edge_def cg_edge_step_def hide_step_def mapping_step_def lrep_step_def move_step_def
  last_key_def hidden_nodes_def set_truthy_def update_node_def set_add_def Let_def RT_def

lemmas run_eval = expand_eval coarse_eval prune_eval hiding_model_def two_state_model_def
  str_nat.simps [of 0] str_nat.simps [of 1] str_nat.simps [of "Suc 0"] digit_char_def

lemma hiding_model_partitions: "coarse_graining_partitions hiding_model"
  unfolding coarse_graining_partitions_def partition_mapping_def hiding_model_def
  by (auto simp: list_all_iff)

theorem exclusivity_witness:
  "coarse_graining_partitions hiding_model
   \<and> unique_keys (init_landscape ''GAAAC'' 37 ''s'')
   \<and> exclusive (init_landscape ''GAAAC'' 37 ''s'')
   \<and> (\<exists>states.
         run_trace hiding_model 2
           [Expand False, CoarseGrain, Prune (1 / 100) 10 (Some {}),
            Expand False, CoarseGrain, Prune (1 / 100) 10 (Some {})]
           (init_landscape ''GAAAC'' 37 ''s'') = Some (Inr states)
         \<and> length states = 6
         \<and> list_all exclusive states
         \<and> map (\<lambda>(k, d). (k, lminreps d, hiddennodes d)) (nodes (last states)) =
             [(''.....'', Some [''(...)''], Some []), (''(...)'', Some [], Some [''.....''])])"
proof -
  have u: "unique_keys (init_landscape ''GAAAC'' 37 ''s'')"
    and e: "exclusive (init_landscape ''GAAAC'' 37 ''s'')"
    by (simp_all add: unique_keys_def exclusive_def init_landscape_def)
  have "\<exists>states.
         run_trace hiding_model 2
           [Expand False, CoarseGrain, Prune (1 / 100) 10 (Some {}),
            Expand False, CoarseGrain, Prune (1 / 100) 10 (Some {})]
           (init_landscape ''GAAAC'' 37 ''s'') = Some (Inr states)
         \<and> length states = 6
         \<and> map (\<lambda>(k, d). (k, lminreps d, hiddennodes d)) (nodes (last states)) =
             [(''.....'', Some [''(...)''], Some []), (''(...)'', Some [], Some [''.....''])]"
    by (simp add: run_eval)
  then obtain states where
    r: "run_trace hiding_model 2
           [Expand False, CoarseGrain, Prune (1 / 100) 10 (Some {}),
            Expand False, CoarseGrain, Prune (1 / 100) 10 (Some {})]
           (init_landscape ''GAAAC'' 37 ''s'') = Some (Inr states)"
    and n: "length states = 6"
    and l: "map (\<lambda>(k, d). (k, lminreps d, hiddennodes d)) (nodes (last states)) =
             [(''.....'', Some [''(...)''], Some []), (''(...)'', Some [], Some [''.....''])]"
    by (elim exE conjE)
  have la: "list_all exclusive states"
    unfolding list_all_iff by (rule exclusivity [OF hiding_model_partitions u e r])
  show ?thesis
    apply (intro conjI)
       apply (rule hiding_model_partitions)
      apply (rule u)
     apply (rule e)
    apply (rule exI [of _ states])
    apply (intro conjI r n la l)
    done
qed

section \<open>Conservation of occupancy\<close>







lemma all_nodes_fields:
  "nodes s' = nodes s \<Longrightarrow> all_nodes N s' = all_nodes N s"
  by (simp add: all_nodes_def)

lemma total_fields: "nodes s' = nodes s \<Longrightarrow> total_occupancy s' = total_occupancy s"
  by (simp add: total_occupancy_def)

lemma keys_present_fields:
  "map fst (nodes s') = map fst (nodes s) \<Longrightarrow> map_of (nodes s) k \<noteq> None \<Longrightarrow> map_of (nodes s') k \<noteq> None"
  by (metis map_of_eq_None_iff set_map)


lemma settle_rel_refl: "settle_rel d d"
  by (simp add: settle_rel_def)





































end
